theory Spec2Isabelle
  imports Complex_Main
begin

section \<open>Data model\<close>

text \<open>
  The notebook solves finite Markov decision processes with policy evaluation, policy
  improvement, policy iteration and value iteration. Its data are Python dictionaries
  keyed by integers, lists of outcome tuples and numpy arrays of float64.

  \<^item> A dictionary is represented by its list of items, in insertion order, with distinct
    keys; \<open>len\<close> is the length of that list and subscription is \<open>getitem\<close>, which raises
    \<open>KeyError\<close> for a missing key.
  \<^item> A one-dimensional numpy array is a list; a two-dimensional array is the list of its
    rows. Subscription with an integer follows numpy: a negative index counts from the
    end, anything else out of range raises \<open>IndexError\<close>.
  \<^item> float64 numbers are idealised as real numbers: rounding, overflow and NaN are not
    part of this model.
  \<^item> Every \<open>while True\<close> loop is a partial function into \<open>option\<close>: \<open>None\<close> is the loop
    that never leaves.
\<close>

datatype error = KeyError | IndexError | ValueError | TypeError

type_synonym outcome = "real \<times> int \<times> real \<times> bool"
type_synonym ('k, 'v) dict = "('k \<times> 'v) list"
type_synonym mdp = "(nat, (nat, outcome list) dict) dict"
type_synonym policy = "(nat, nat) dict"

definition getitem :: "('k, 'v) dict \<Rightarrow> 'k \<Rightarrow> error + 'v" where
  "getitem d k = (case map_of d k of None \<Rightarrow> Inl KeyError | Some v \<Rightarrow> Inr v)"

text \<open>
  Equality of two dictionaries as Python decides it: the same number of items, and every
  item of the left one is found under its key in the right one.
\<close>

definition dict_eq :: "('k, 'v) dict \<Rightarrow> ('k, 'v) dict \<Rightarrow> bool" where
  "dict_eq a b = (length a = length b \<and> list_all (\<lambda>(k, v). map_of b k = Some v) a)"

definition np_index :: "'a list \<Rightarrow> int \<Rightarrow> error + 'a" where
  "np_index xs i =
     (if 0 \<le> i \<and> i < int (length xs) then Inr (xs ! nat i)
      else if i < 0 \<and> - int (length xs) \<le> i then Inr (xs ! nat (int (length xs) + i))
      else Inl IndexError)"

text \<open>\<open>np.max\<close> of a one-dimensional array; numpy raises \<open>ValueError\<close> on an empty one.\<close>

fun np_max :: "real list \<Rightarrow> error + real" where
  "np_max [] = Inl ValueError"
| "np_max (x # xs) = Inr (fold max xs x)"

text \<open>
  \<open>np.argmax\<close> of a one-dimensional array: a scan that keeps the first position of the
  largest value seen, so that ties go to the lowest index; \<open>ValueError\<close> on an empty array.
\<close>

fun argmax_scan :: "real list \<Rightarrow> nat \<Rightarrow> real \<Rightarrow> nat \<Rightarrow> nat" where
  "argmax_scan [] i best best_i = best_i"
| "argmax_scan (x # xs) i best best_i =
     (if best < x then argmax_scan xs (Suc i) x i else argmax_scan xs (Suc i) best best_i)"

fun np_argmax :: "real list \<Rightarrow> error + nat" where
  "np_argmax [] = Inl ValueError"
| "np_argmax (x # xs) = Inr (argmax_scan xs 1 x 0)"

text \<open>A \<open>for\<close> loop that builds one result per element and stops at the first exception.\<close>

fun mapM_err :: "('a \<Rightarrow> error + 'b) \<Rightarrow> 'a list \<Rightarrow> error + 'b list" where
  "mapM_err f [] = Inr []"
| "mapM_err f (x # xs) =
     (case f x of Inl e \<Rightarrow> Inl e
      | Inr y \<Rightarrow> (case mapM_err f xs of Inl e \<Rightarrow> Inl e | Inr ys \<Rightarrow> Inr (y # ys)))"

text \<open>\<open>np.max(Q_vals, axis=1)\<close> and \<open>np.argmax(Q_vals, axis=1)\<close>: one reduction per row.\<close>

definition np_max_axis1 :: "real list list \<Rightarrow> error + real list" where
  "np_max_axis1 Q_vals = mapM_err np_max Q_vals"

definition np_argmax_axis1 :: "real list list \<Rightarrow> error + nat list" where
  "np_argmax_axis1 Q_vals = mapM_err np_argmax Q_vals"

text \<open>\<open>np.max(np.absolute(xs - ys))\<close> for two arrays of the same shape.\<close>

definition max_abs_diff :: "real list \<Rightarrow> real list \<Rightarrow> error + real" where
  "max_abs_diff xs ys = np_max (map abs (map2 (-) xs ys))"

section \<open>Policy evaluation\<close>

text \<open>
  The innermost loop, shared by all algorithms:
  \<^verbatim>\<open>for transition_probability, state_prime, reward, done in outcomes:
      acc += transition_probability * (reward + gamma * values[state_prime] * (not done))\<close>
  The array is read before the product with \<open>not done\<close> is taken, so an index out of
  range raises on a terminal outcome too.
\<close>

fun accumulate :: "real \<Rightarrow> real list \<Rightarrow> real \<Rightarrow> outcome list \<Rightarrow> error + real" where
  "accumulate gamma vs acc [] = Inr acc"
| "accumulate gamma vs acc ((transition_probability, state_prime, reward, done) # rest) =
     (case np_index vs state_prime of Inl e \<Rightarrow> Inl e
      | Inr v \<Rightarrow> accumulate gamma vs
          (acc + transition_probability * (reward + gamma * v * (if done then 0 else 1))) rest)"

text \<open>One pass of \<open>for state in range(state_space)\<close> over \<open>mdp[state][pi[state]]\<close>.\<close>

definition pe_sweep :: "policy \<Rightarrow> mdp \<Rightarrow> real \<Rightarrow> real list \<Rightarrow> error + real list" where
  "pe_sweep pol mdp gamma state_values =
     mapM_err (\<lambda>state.
        case getitem mdp state of Inl e \<Rightarrow> Inl e
        | Inr row \<Rightarrow> (case getitem pol state of Inl e \<Rightarrow> Inl e
        | Inr a \<Rightarrow> (case getitem row a of Inl e \<Rightarrow> Inl e
        | Inr outcomes \<Rightarrow> accumulate gamma state_values 0 outcomes)))
       [0..<length mdp]"

partial_function (option) pe_loop ::
  "policy \<Rightarrow> mdp \<Rightarrow> real \<Rightarrow> real \<Rightarrow> real list \<Rightarrow> (error + real list) option" where
  "pe_loop pol mdp gamma theta state_values =
     (case pe_sweep pol mdp gamma state_values of Inl e \<Rightarrow> Some (Inl e)
      | Inr current_values \<Rightarrow>
         (case max_abs_diff state_values current_values of Inl e \<Rightarrow> Some (Inl e)
          | Inr d \<Rightarrow> if d < theta then Some (Inr current_values)
                     else pe_loop pol mdp gamma theta current_values))"

definition policy_evaluation ::
  "policy \<Rightarrow> mdp \<Rightarrow> real \<Rightarrow> real \<Rightarrow> (error + real list) option" where
  "policy_evaluation pol mdp gamma theta =
     pe_loop pol mdp gamma theta (replicate (length mdp) 0)"

text \<open>
  The same loop cut off after \<open>n\<close> sweeps: \<open>None\<close> when \<open>n\<close> sweeps were not enough. The
  number of sweeps a call performs is the least \<open>n\<close> for which this is \<open>Some\<close>.
\<close>

fun pe_loop_n ::
  "nat \<Rightarrow> policy \<Rightarrow> mdp \<Rightarrow> real \<Rightarrow> real \<Rightarrow> real list \<Rightarrow> (error + real list) option" where
  "pe_loop_n 0 pol mdp gamma theta state_values = None"
| "pe_loop_n (Suc n) pol mdp gamma theta state_values =
     (case pe_sweep pol mdp gamma state_values of Inl e \<Rightarrow> Some (Inl e)
      | Inr current_values \<Rightarrow>
         (case max_abs_diff state_values current_values of Inl e \<Rightarrow> Some (Inl e)
          | Inr d \<Rightarrow> if d < theta then Some (Inr current_values)
                     else pe_loop_n n pol mdp gamma theta current_values))"

text \<open>
  The loop once more, with a counter of the sweeps it has run. The source has no such
  variable: the counter is added to say how many sweeps a call performs. Forgetting it
  gives \<open>policy_evaluation\<close> back, for every input.
\<close>

partial_function (option) pe_loop_sweeps ::
  "policy \<Rightarrow> mdp \<Rightarrow> real \<Rightarrow> real \<Rightarrow> real list \<Rightarrow> nat \<Rightarrow> (error + real list \<times> nat) option"
  where
  "pe_loop_sweeps pol mdp gamma theta state_values sweeps =
     (case pe_sweep pol mdp gamma state_values of Inl e \<Rightarrow> Some (Inl e)
      | Inr current_values \<Rightarrow>
         (case max_abs_diff state_values current_values of Inl e \<Rightarrow> Some (Inl e)
          | Inr d \<Rightarrow> if d < theta then Some (Inr (current_values, Suc sweeps))
                     else pe_loop_sweeps pol mdp gamma theta current_values (Suc sweeps)))"

definition policy_evaluation_sweeps ::
  "policy \<Rightarrow> mdp \<Rightarrow> real \<Rightarrow> real \<Rightarrow> (error + real list \<times> nat) option" where
  "policy_evaluation_sweeps pol mdp gamma theta =
     pe_loop_sweeps pol mdp gamma theta (replicate (length mdp) 0) 0"

section \<open>Policy improvement\<close>

text \<open>
  The sweep that fills \<open>Q_vals\<close>; \<open>policy_improvement\<close> and \<open>value_iteration\<close> contain the
  same three nested loops.
\<close>

definition q_sweep :: "real list \<Rightarrow> mdp \<Rightarrow> real \<Rightarrow> nat \<Rightarrow> nat \<Rightarrow> error + real list list" where
  "q_sweep value_function mdp gamma state_space action_space =
     mapM_err (\<lambda>state.
        mapM_err (\<lambda>action.
           case getitem mdp state of Inl e \<Rightarrow> Inl e
           | Inr row \<Rightarrow> (case getitem row action of Inl e \<Rightarrow> Inl e
           | Inr outcomes \<Rightarrow> accumulate gamma value_function 0 outcomes))
          [0..<action_space])
       [0..<state_space]"

text \<open>
  \<open>policy_constructor\<close> takes the first maximum of every row. A list of rows does not
  record how many columns a table without rows has; numpy raises \<open>ValueError\<close> when there
  are none and returns an empty array otherwise, and the definition below returns the
  empty policy. No such table reaches it: \<open>policy_improvement\<close> and \<open>value_iteration\<close>
  read \<open>mdp[0]\<close> before they build \<open>Q_vals\<close>, so the table has at least one row.
\<close>

definition policy_constructor :: "real list list \<Rightarrow> error + policy" where
  "policy_constructor Q_vals =
     (case np_argmax_axis1 Q_vals of Inl e \<Rightarrow> Inl e
      | Inr actions \<Rightarrow> Inr (enumerate 0 actions))"

definition policy_improvement :: "real list \<Rightarrow> mdp \<Rightarrow> real \<Rightarrow> error + policy" where
  "policy_improvement value_function mdp gamma =
     (case getitem mdp 0 of Inl e \<Rightarrow> Inl e
      | Inr row0 \<Rightarrow>
         (case q_sweep value_function mdp gamma (length mdp) (length row0) of
            Inl e \<Rightarrow> Inl e
          | Inr Q_vals \<Rightarrow> policy_constructor Q_vals))"

section \<open>Policy iteration\<close>

text \<open>
  \<open>np.random.randint(0, action_space, size=state_space)\<close> is the only source of
  randomness; the array it returns is the parameter \<open>rnd\<close>, and \<open>randint_result\<close> is
  what numpy promises about it. numpy raises \<open>ValueError\<close> when \<open>action_space\<close> is 0.
\<close>

definition randint_result :: "nat \<Rightarrow> nat \<Rightarrow> nat list \<Rightarrow> bool" where
  "randint_result high n rnd = (length rnd = n \<and> list_all (\<lambda>a. a < high) rnd)"

text \<open>\<open>{state:improved_policy[state] for state in range(state_space)}\<close>\<close>

definition rebuild :: "policy \<Rightarrow> nat \<Rightarrow> error + policy" where
  "rebuild improved_policy state_space =
     mapM_err (\<lambda>state. case getitem improved_policy state of Inl e \<Rightarrow> Inl e
                       | Inr a \<Rightarrow> Inr (state, a)) [0..<state_space]"

partial_function (option) pi_loop ::
  "mdp \<Rightarrow> real \<Rightarrow> real \<Rightarrow> nat \<Rightarrow> policy \<Rightarrow> (error + policy \<times> real list) option" where
  "pi_loop mdp gamma theta state_space current_policy =
     (case policy_evaluation current_policy mdp gamma theta of None \<Rightarrow> None
      | Some r \<Rightarrow>
         (case r of Inl e \<Rightarrow> Some (Inl e)
          | Inr value_function \<Rightarrow>
             (case policy_improvement value_function mdp gamma of Inl e \<Rightarrow> Some (Inl e)
              | Inr improved_policy \<Rightarrow>
                 (case rebuild improved_policy state_space of Inl e \<Rightarrow> Some (Inl e)
                  | Inr d \<Rightarrow>
                      if dict_eq current_policy d
                      then Some (Inr (improved_policy, value_function))
                      else pi_loop mdp gamma theta state_space improved_policy))))"

definition policy_iteration ::
  "nat list \<Rightarrow> mdp \<Rightarrow> real \<Rightarrow> real \<Rightarrow> (error + policy \<times> real list) option" where
  "policy_iteration rnd mdp gamma theta =
     (case getitem mdp 0 of Inl e \<Rightarrow> Some (Inl e)
      | Inr row0 \<Rightarrow>
         if length row0 = 0 then Some (Inl ValueError)
         else pi_loop mdp gamma theta (length mdp) (enumerate 0 rnd))"

section \<open>Value iteration\<close>

text \<open>
  The loop leaves with the variables \<open>Q_vals\<close> and \<open>value_function\<close> as they are at the
  \<open>break\<close>; the assignment \<open>value_function = np.max(Q_vals, axis=1)\<close> is below the
  \<open>break\<close> and is not run in the last pass.
\<close>

partial_function (option) vi_loop ::
  "mdp \<Rightarrow> real \<Rightarrow> real \<Rightarrow> nat \<Rightarrow> nat \<Rightarrow> real list \<Rightarrow>
   (error + real list list \<times> real list) option" where
  "vi_loop mdp gamma theta state_space action_space value_function =
     (case q_sweep value_function mdp gamma state_space action_space of
        Inl e \<Rightarrow> Some (Inl e)
      | Inr Q_vals \<Rightarrow>
         (case np_max_axis1 Q_vals of Inl e \<Rightarrow> Some (Inl e)
          | Inr m \<Rightarrow>
             (case max_abs_diff value_function m of Inl e \<Rightarrow> Some (Inl e)
              | Inr d \<Rightarrow>
                  if d < theta then Some (Inr (Q_vals, value_function))
                  else vi_loop mdp gamma theta state_space action_space m)))"

definition value_iteration ::
  "mdp \<Rightarrow> real \<Rightarrow> real \<Rightarrow> (error + policy \<times> real list) option" where
  "value_iteration mdp gamma theta =
     (case getitem mdp 0 of Inl e \<Rightarrow> Some (Inl e)
      | Inr row0 \<Rightarrow>
         (case vi_loop mdp gamma theta (length mdp) (length row0)
                 (replicate (length mdp) 0) of
            None \<Rightarrow> None
          | Some r \<Rightarrow>
             (case r of Inl e \<Rightarrow> Some (Inl e)
              | Inr (Q_vals, value_function) \<Rightarrow>
                 (case policy_constructor Q_vals of Inl e \<Rightarrow> Some (Inl e)
                  | Inr policy \<Rightarrow> Some (Inr (policy, value_function))))))"

fun vi_loop_n ::
  "nat \<Rightarrow> mdp \<Rightarrow> real \<Rightarrow> real \<Rightarrow> nat \<Rightarrow> nat \<Rightarrow> real list \<Rightarrow>
   (error + real list list \<times> real list) option" where
  "vi_loop_n 0 mdp gamma theta state_space action_space value_function = None"
| "vi_loop_n (Suc n) mdp gamma theta state_space action_space value_function =
     (case q_sweep value_function mdp gamma state_space action_space of
        Inl e \<Rightarrow> Some (Inl e)
      | Inr Q_vals \<Rightarrow>
         (case np_max_axis1 Q_vals of Inl e \<Rightarrow> Some (Inl e)
          | Inr m \<Rightarrow>
             (case max_abs_diff value_function m of Inl e \<Rightarrow> Some (Inl e)
              | Inr d \<Rightarrow>
                  if d < theta then Some (Inr (Q_vals, value_function))
                  else vi_loop_n n mdp gamma theta state_space action_space m)))"

section \<open>The environments of the notebook\<close>

definition slippery_bandit_walk :: mdp where
  "slippery_bandit_walk =
     [(0, [(0, [(1, 0, 0, True)]),
           (1, [(1, 0, 0, True)])]),
      (1, [(0, [(8/10, 0, 0, True), (2/10, 2, 0, False)]),
           (1, [(8/10, 2, 0, False), (2/10, 0, 0, True)])]),
      (2, [(0, [(8/10, 1, 0, False), (2/10, 3, 0, False)]),
           (1, [(8/10, 3, 0, False), (2/10, 1, 0, False)])]),
      (3, [(0, [(8/10, 2, 0, False), (2/10, 4, 1, True)]),
           (1, [(8/10, 4, 1, True), (2/10, 2, 0, False)])]),
      (4, [(0, [(1, 4, 0, True)]),
           (1, [(1, 4, 0, True)])])]"


text \<open>
  The smallest episodic process: one state, one action, a single outcome that ends the
  episode with reward 0.
\<close>

definition single_state_mdp :: mdp where
  "single_state_mdp = [(0, [(0, [(1, 0, 0, True)])])]"

text \<open>
  A process that never ends: one state whose only action comes back to it with
  probability 1 and reward 1.
\<close>

definition self_loop_mdp :: mdp where
  "self_loop_mdp = [(0, [(0, [(1, 0, 1, False)])])]"

text \<open>
  Two states that send to each other with probability 1, with the rewards 1 and -1;
  neither outcome is terminal.
\<close>

definition exchange_mdp :: mdp where
  "exchange_mdp = [(0, [(0, [(1, 1, 1, False)])]), (1, [(0, [(1, 0, - 1, False)])])]"


section \<open>Notions of the specification\<close>

text \<open>
  An integer subscript of an array of length \<open>n\<close> is accepted when it lies in
  \<open>-n..n-1\<close>, and then stands for the position \<open>wrap_index n i\<close>.
\<close>

definition index_ok :: "nat \<Rightarrow> int \<Rightarrow> bool" where
  "index_ok n i = (- int n \<le> i \<and> i < int n)"

definition wrap_index :: "nat \<Rightarrow> int \<Rightarrow> nat" where
  "wrap_index n i = (if 0 \<le> i then nat i else nat (int n + i))"

text \<open>
  The one-step backup of a list of outcomes as the specification writes it: the sum over
  the outcomes of \<open>prob * (reward + gamma * V[next_state] * (0 if terminal else 1))\<close>.
\<close>

definition expected_return :: "real \<Rightarrow> real list \<Rightarrow> outcome list \<Rightarrow> real" where
  "expected_return gamma vs outcomes =
     (\<Sum>(p, s', r, d) \<leftarrow> outcomes.
        p * (r + gamma * (vs ! wrap_index (length vs) s') * (if d then 0 else 1)))"

definition outcomes_ok :: "nat \<Rightarrow> outcome list \<Rightarrow> bool" where
  "outcomes_ok n outcomes = list_all (\<lambda>(p, s', r, d). index_ok n s') outcomes"

text \<open>
  The entry \<open>Q[s][a]\<close> of the action-value table of a value function, as the
  specification defines it; it exists when \<open>mdp[s][a]\<close> does and every next state of its
  outcomes is a subscript of the value function.
\<close>

definition outcomes_at :: "mdp \<Rightarrow> nat \<Rightarrow> nat \<Rightarrow> outcome list option" where
  "outcomes_at mdp s a = (case map_of mdp s of None \<Rightarrow> None | Some row \<Rightarrow> map_of row a)"

definition action_value :: "real \<Rightarrow> real list \<Rightarrow> mdp \<Rightarrow> nat \<Rightarrow> nat \<Rightarrow> real option" where
  "action_value gamma vs mdp s a =
     (case outcomes_at mdp s a of None \<Rightarrow> None
      | Some outcomes \<Rightarrow>
          if outcomes_ok (length vs) outcomes then Some (expected_return gamma vs outcomes)
          else None)"

text \<open>
  \<open>a\<close> is the lowest-indexed action among those that achieve the maximum of \<open>q\<close> over
  the actions \<open>0..n-1\<close>: no action has a larger value and every action before \<open>a\<close> has
  a strictly smaller one.
\<close>

definition lowest_argmax :: "(nat \<Rightarrow> real option) \<Rightarrow> nat \<Rightarrow> nat \<Rightarrow> bool" where
  "lowest_argmax q n a =
     (a < n \<and>
      (\<forall>b<n. case (q b, q a) of
                (Some x, Some y) \<Rightarrow> x \<le> y \<and> (b < a \<longrightarrow> x < y)
              | _ \<Rightarrow> False))"

text \<open>
  A policy is greedy for a value function when it maps every state \<open>0..len(mdp)-1\<close> to
  the lowest-indexed maximising action, the actions being \<open>0..len(mdp[0])-1\<close>.
\<close>

definition greedy_policy :: "real \<Rightarrow> real list \<Rightarrow> mdp \<Rightarrow> policy \<Rightarrow> bool" where
  "greedy_policy gamma vs mdp pol =
     (case map_of mdp 0 of None \<Rightarrow> False
      | Some row0 \<Rightarrow>
          (\<forall>s<length mdp. case map_of pol s of None \<Rightarrow> False
             | Some a \<Rightarrow> lowest_argmax (action_value gamma vs mdp s) (length row0) a))"

text \<open>
  The value function is within \<open>theta\<close> of the value of the action that the policy
  chooses, in every state.
\<close>

definition within_theta :: "real \<Rightarrow> real \<Rightarrow> mdp \<Rightarrow> policy \<Rightarrow> real list \<Rightarrow> bool" where
  "within_theta gamma theta mdp pol vs =
     (\<forall>s<length mdp. case map_of pol s of None \<Rightarrow> False
        | Some a \<Rightarrow> (case action_value gamma vs mdp s a of None \<Rightarrow> False
        | Some q \<Rightarrow> \<bar>vs ! s - q\<bar> < theta))"

text \<open>
  The loop of policy iteration cut off after \<open>n\<close> passes; each pass runs a complete
  policy evaluation.
\<close>

fun pi_loop_n ::
  "nat \<Rightarrow> mdp \<Rightarrow> real \<Rightarrow> real \<Rightarrow> nat \<Rightarrow> policy \<Rightarrow> (error + policy \<times> real list) option" where
  "pi_loop_n 0 mdp gamma theta state_space current_policy = None"
| "pi_loop_n (Suc n) mdp gamma theta state_space current_policy =
     (case policy_evaluation current_policy mdp gamma theta of None \<Rightarrow> None
      | Some r \<Rightarrow>
         (case r of Inl e \<Rightarrow> Some (Inl e)
          | Inr value_function \<Rightarrow>
             (case policy_improvement value_function mdp gamma of Inl e \<Rightarrow> Some (Inl e)
              | Inr improved_policy \<Rightarrow>
                 (case rebuild improved_policy state_space of Inl e \<Rightarrow> Some (Inl e)
                  | Inr d \<Rightarrow>
                      if dict_eq current_policy d
                      then Some (Inr (improved_policy, value_function))
                      else pi_loop_n n mdp gamma theta state_space improved_policy))))"

text \<open>
  A policy is a total in-range mapping for a process when its keys are exactly the
  states \<open>0..len(mdp)-1\<close> and every action it assigns is below \<open>len(mdp[0])\<close>.
\<close>

definition policy_in_range :: "mdp \<Rightarrow> policy \<Rightarrow> bool" where
  "policy_in_range mdp pol =
     (distinct (map fst pol) \<and> set (map fst pol) = {0..<length mdp} \<and>
      (case map_of mdp 0 of None \<Rightarrow> False
       | Some row0 \<Rightarrow> list_all (\<lambda>(s, a). a < length row0) pol))"

text \<open>
  One state with two actions, both ending the episode: action 0 pays 0 and action 1
  pays 1.
\<close>

definition two_action_mdp :: mdp where
  "two_action_mdp = [(0, [(0, [(1, 0, 0, True)]), (1, [(1, 0, 1, True)])])]"

text \<open>
  The invariant of the specification's data model: in every list of outcomes the
  probabilities lie in \<open>[0, 1]\<close> and sum to 1.
\<close>

definition probabilities_ok :: "mdp \<Rightarrow> bool" where
  "probabilities_ok mdp =
     list_all (\<lambda>(s, row).
       list_all (\<lambda>(a, outcomes).
         list_all (\<lambda>outcome. 0 \<le> fst outcome \<and> fst outcome \<le> 1) outcomes
         \<and> sum_list (map fst outcomes) = 1) row) mdp"

text \<open>
  A weaker condition, which also holds when some probability mass is missing: no
  probability is negative and those of a list of outcomes sum to at most 1.
\<close>

definition mass_at_most_one :: "mdp \<Rightarrow> bool" where
  "mass_at_most_one mdp =
     list_all (\<lambda>(s, row).
       list_all (\<lambda>(a, outcomes).
         list_all (\<lambda>outcome. 0 \<le> fst outcome) outcomes
         \<and> sum_list (map fst outcomes) \<le> 1) row) mdp"

text \<open>
  The Slippery Bandit Walk scenario: the policy and the value function that the
  specification expects, the latter rounded to four decimals.
\<close>

definition sbw_optimal_policy :: policy where
  "sbw_optimal_policy = [(0, 0), (1, 1), (2, 1), (3, 1), (4, 0)]"

definition sbw_expected_values :: "real list" where
  "sbw_expected_values = [0, 7529 / 10000, 9412 / 10000, 9882 / 10000, 0]"

definition approx_equal :: "real list \<Rightarrow> real list \<Rightarrow> bool" where
  "approx_equal vs ws =
     (length vs = length ws \<and> (\<forall>i<length ws. \<bar>vs ! i - ws ! i\<bar> < 1 / 10 ^ 4))"

text \<open>
  One sweep of policy evaluation on the Slippery Bandit Walk with \<open>gamma = 1\<close>, for the
  policy that takes the actions \<open>a1\<close>, \<open>a2\<close>, \<open>a3\<close> in the states 1, 2, 3, written out;
  and the distance in which this sweep is a contraction.
\<close>

definition sbw_backup :: "nat \<Rightarrow> nat \<Rightarrow> nat \<Rightarrow> real list \<Rightarrow> real list" where
  "sbw_backup a1 a2 a3 v =
     [0,
      if a1 = 0 then 2/10 * v ! 2 else 8/10 * v ! 2,
      if a2 = 0 then 8/10 * v ! 1 + 2/10 * v ! 3 else 8/10 * v ! 3 + 2/10 * v ! 1,
      if a3 = 0 then 8/10 * v ! 2 + 2/10 else 8/10 + 2/10 * v ! 2,
      0]"

definition sbw_dist :: "real list \<Rightarrow> real list \<Rightarrow> real" where
  "sbw_dist u v =
     max \<bar>u ! 1 - v ! 1\<bar> (max (9/10 * \<bar>u ! 2 - v ! 2\<bar>) \<bar>u ! 3 - v ! 3\<bar>)"

definition sbw_values :: "real list \<Rightarrow> bool" where
  "sbw_values v =
     (length v = 5 \<and> v ! 0 = 0 \<and> v ! 4 = 0 \<and> 0 \<le> v ! 1 \<and> v ! 1 \<le> 1
      \<and> 0 \<le> v ! 2 \<and> v ! 2 \<le> 1 \<and> 0 \<le> v ! 3 \<and> v ! 3 \<le> 1)"

definition sbw_small :: "nat \<Rightarrow> nat \<Rightarrow> nat \<Rightarrow> real \<Rightarrow> real list \<Rightarrow> bool" where
  "sbw_small a1 a2 a3 theta u =
     (\<bar>u ! 1 - sbw_backup a1 a2 a3 u ! 1\<bar> < theta
      \<and> \<bar>u ! 2 - sbw_backup a1 a2 a3 u ! 2\<bar> < theta
      \<and> \<bar>u ! 3 - sbw_backup a1 a2 a3 u ! 3\<bar> < theta)"

text \<open>The table \<open>Q_vals\<close> of a value function on the Slippery Bandit Walk, written out.\<close>

definition sbw_table :: "real list \<Rightarrow> real list list" where
  "sbw_table v =
     [[0, 0],
      [2/10 * v ! 2, 8/10 * v ! 2],
      [8/10 * v ! 1 + 2/10 * v ! 3, 8/10 * v ! 3 + 2/10 * v ! 1],
      [8/10 * v ! 2 + 2/10, 8/10 + 2/10 * v ! 2],
      [0, 0]]"

section \<open>The algorithms over an object store\<close>

text \<open>
  Python passes the process, the policies and the arrays by reference, and the loops
  write into arrays in place. To state what a call does to objects that existed before
  it, the algorithms are modelled a second time over an explicit store: a list of
  objects, a reference being a position in it. \<open>np.zeros\<close>, \<open>.copy()\<close>, \<open>np.max(.., axis=1)\<close>
  and the dictionary comprehensions allocate a new object at the end of the store; \<open>+=\<close>
  on an array element overwrites the object the reference points to. Temporaries that
  no variable keeps (the difference of two arrays, the rebuilt dictionary of the
  comparison) are not allocated. A reference to an object of the wrong kind is a
  \<open>TypeError\<close>.
\<close>

datatype obj = MdpObj mdp | DictObj policy | ArrayObj "real list" | TableObj "real list list"

type_synonym heap = "obj list"
type_synonym ref = nat

definition alloc :: "heap \<Rightarrow> obj \<Rightarrow> ref \<times> heap" where
  "alloc h x = (length h, h @ [x])"

definition get_mdp :: "heap \<Rightarrow> ref \<Rightarrow> error + mdp" where
  "get_mdp h r = (if r < length h then (case h ! r of MdpObj m \<Rightarrow> Inr m | _ \<Rightarrow> Inl TypeError)
                  else Inl TypeError)"

definition get_dict :: "heap \<Rightarrow> ref \<Rightarrow> error + policy" where
  "get_dict h r = (if r < length h then (case h ! r of DictObj d \<Rightarrow> Inr d | _ \<Rightarrow> Inl TypeError)
                   else Inl TypeError)"

definition get_array :: "heap \<Rightarrow> ref \<Rightarrow> error + real list" where
  "get_array h r = (if r < length h then (case h ! r of ArrayObj a \<Rightarrow> Inr a | _ \<Rightarrow> Inl TypeError)
                    else Inl TypeError)"

definition get_table :: "heap \<Rightarrow> ref \<Rightarrow> error + real list list" where
  "get_table h r = (if r < length h then (case h ! r of TableObj t \<Rightarrow> Inr t | _ \<Rightarrow> Inl TypeError)
                    else Inl TypeError)"

text \<open>
  \<open>current_values[state] += transition_probability * (reward + gamma *
  state_values[state_prime] * (not done))\<close>, for every outcome in turn.
\<close>

fun accumulate_st ::
  "real \<Rightarrow> ref \<Rightarrow> ref \<Rightarrow> nat \<Rightarrow> outcome list \<Rightarrow> heap \<Rightarrow> error + heap" where
  "accumulate_st gamma state_values current_values state [] h = Inr h"
| "accumulate_st gamma state_values current_values state
     ((transition_probability, state_prime, reward, done) # rest) h =
     (case get_array h current_values of Inl e \<Rightarrow> Inl e
      | Inr cs \<Rightarrow>
         if \<not> state < length cs then Inl IndexError
         else (case get_array h state_values of Inl e \<Rightarrow> Inl e
         | Inr vs \<Rightarrow> (case np_index vs state_prime of Inl e \<Rightarrow> Inl e
         | Inr v \<Rightarrow>
             accumulate_st gamma state_values current_values state rest
               (h[current_values := ArrayObj (cs[state := cs ! state
                  + transition_probability * (reward + gamma * v * (if done then 0 else 1))])]))))"

fun pe_states_st ::
  "ref \<Rightarrow> ref \<Rightarrow> real \<Rightarrow> ref \<Rightarrow> ref \<Rightarrow> nat list \<Rightarrow> heap \<Rightarrow> error + heap" where
  "pe_states_st pol mdp gamma state_values current_values [] h = Inr h"
| "pe_states_st pol mdp gamma state_values current_values (state # states) h =
     (case get_mdp h mdp of Inl e \<Rightarrow> Inl e
      | Inr m \<Rightarrow> (case getitem m state of Inl e \<Rightarrow> Inl e
      | Inr row \<Rightarrow> (case get_dict h pol of Inl e \<Rightarrow> Inl e
      | Inr p \<Rightarrow> (case getitem p state of Inl e \<Rightarrow> Inl e
      | Inr a \<Rightarrow> (case getitem row a of Inl e \<Rightarrow> Inl e
      | Inr outcomes \<Rightarrow>
          (case accumulate_st gamma state_values current_values state outcomes h of
             Inl e \<Rightarrow> Inl e
           | Inr h' \<Rightarrow> pe_states_st pol mdp gamma state_values current_values states h'))))))"

partial_function (option) pe_loop_st ::
  "ref \<Rightarrow> ref \<Rightarrow> real \<Rightarrow> real \<Rightarrow> nat \<Rightarrow> ref \<Rightarrow> heap \<Rightarrow> (error + ref \<times> heap) option" where
  "pe_loop_st pol mdp gamma theta state_space state_values h =
     (case alloc h (ArrayObj (replicate state_space 0)) of
        (current_values, h1) \<Rightarrow>
          (case pe_states_st pol mdp gamma state_values current_values [0..<state_space] h1 of
             Inl e \<Rightarrow> Some (Inl e)
           | Inr h2 \<Rightarrow> (case get_array h2 state_values of Inl e \<Rightarrow> Some (Inl e)
           | Inr vs \<Rightarrow> (case get_array h2 current_values of Inl e \<Rightarrow> Some (Inl e)
           | Inr cs \<Rightarrow> (case max_abs_diff vs cs of Inl e \<Rightarrow> Some (Inl e)
           | Inr d \<Rightarrow>
               if d < theta then Some (Inr (current_values, h2))
               else (case alloc h2 (ArrayObj cs) of
                       (copy, h3) \<Rightarrow>
                         pe_loop_st pol mdp gamma theta state_space copy h3))))))"

definition policy_evaluation_st ::
  "ref \<Rightarrow> ref \<Rightarrow> real \<Rightarrow> real \<Rightarrow> heap \<Rightarrow> (error + ref \<times> heap) option" where
  "policy_evaluation_st pol mdp gamma theta h =
     (case get_mdp h mdp of Inl e \<Rightarrow> Some (Inl e)
      | Inr m \<Rightarrow>
         (case alloc h (ArrayObj (replicate (length m) 0)) of
            (state_values, h0) \<Rightarrow> pe_loop_st pol mdp gamma theta (length m) state_values h0))"

text \<open>\<open>Q_vals[state][action] += ...\<close>, for every outcome, action and state in turn.\<close>

fun accumulate_q_st ::
  "real \<Rightarrow> ref \<Rightarrow> ref \<Rightarrow> nat \<Rightarrow> nat \<Rightarrow> outcome list \<Rightarrow> heap \<Rightarrow> error + heap" where
  "accumulate_q_st gamma value_function Q_vals state action [] h = Inr h"
| "accumulate_q_st gamma value_function Q_vals state action
     ((transition_probability, state_prime, reward, done) # rest) h =
     (case get_table h Q_vals of Inl e \<Rightarrow> Inl e
      | Inr q \<Rightarrow>
         if \<not> (state < length q \<and> action < length (q ! state)) then Inl IndexError
         else (case get_array h value_function of Inl e \<Rightarrow> Inl e
         | Inr vs \<Rightarrow> (case np_index vs state_prime of Inl e \<Rightarrow> Inl e
         | Inr v \<Rightarrow>
             accumulate_q_st gamma value_function Q_vals state action rest
               (h[Q_vals := TableObj (q[state := (q ! state)[action := q ! state ! action
                  + transition_probability * (reward + gamma * v * (if done then 0 else 1))]])]))))"

fun q_actions_st ::
  "ref \<Rightarrow> real \<Rightarrow> ref \<Rightarrow> ref \<Rightarrow> nat \<Rightarrow> nat list \<Rightarrow> heap \<Rightarrow> error + heap" where
  "q_actions_st mdp gamma value_function Q_vals state [] h = Inr h"
| "q_actions_st mdp gamma value_function Q_vals state (action # actions) h =
     (case get_mdp h mdp of Inl e \<Rightarrow> Inl e
      | Inr m \<Rightarrow> (case getitem m state of Inl e \<Rightarrow> Inl e
      | Inr row \<Rightarrow> (case getitem row action of Inl e \<Rightarrow> Inl e
      | Inr outcomes \<Rightarrow>
          (case accumulate_q_st gamma value_function Q_vals state action outcomes h of
             Inl e \<Rightarrow> Inl e
           | Inr h' \<Rightarrow> q_actions_st mdp gamma value_function Q_vals state actions h'))))"

fun q_states_st ::
  "ref \<Rightarrow> real \<Rightarrow> ref \<Rightarrow> ref \<Rightarrow> nat \<Rightarrow> nat list \<Rightarrow> heap \<Rightarrow> error + heap" where
  "q_states_st mdp gamma value_function Q_vals action_space [] h = Inr h"
| "q_states_st mdp gamma value_function Q_vals action_space (state # states) h =
     (case q_actions_st mdp gamma value_function Q_vals state [0..<action_space] h of
        Inl e \<Rightarrow> Inl e
      | Inr h' \<Rightarrow> q_states_st mdp gamma value_function Q_vals action_space states h')"

definition policy_constructor_st :: "ref \<Rightarrow> heap \<Rightarrow> error + ref \<times> heap" where
  "policy_constructor_st Q_vals h =
     (case get_table h Q_vals of Inl e \<Rightarrow> Inl e
      | Inr q \<Rightarrow> (case policy_constructor q of Inl e \<Rightarrow> Inl e
      | Inr policy \<Rightarrow> Inr (alloc h (DictObj policy))))"

definition policy_improvement_st :: "ref \<Rightarrow> ref \<Rightarrow> real \<Rightarrow> heap \<Rightarrow> error + ref \<times> heap" where
  "policy_improvement_st value_function mdp gamma h =
     (case get_mdp h mdp of Inl e \<Rightarrow> Inl e
      | Inr m \<Rightarrow> (case getitem m 0 of Inl e \<Rightarrow> Inl e
      | Inr row0 \<Rightarrow>
          (case alloc h (TableObj (replicate (length m) (replicate (length row0) 0))) of
             (Q_vals, h1) \<Rightarrow>
               (case q_states_st mdp gamma value_function Q_vals (length row0)
                       [0..<length m] h1 of
                  Inl e \<Rightarrow> Inl e
                | Inr h2 \<Rightarrow> policy_constructor_st Q_vals h2))))"

partial_function (option) pi_loop_st ::
  "ref \<Rightarrow> real \<Rightarrow> real \<Rightarrow> nat \<Rightarrow> ref \<Rightarrow> heap \<Rightarrow> (error + (ref \<times> ref) \<times> heap) option" where
  "pi_loop_st mdp gamma theta state_space current_policy h =
     (case policy_evaluation_st current_policy mdp gamma theta h of None \<Rightarrow> None
      | Some r \<Rightarrow>
         (case r of Inl e \<Rightarrow> Some (Inl e)
          | Inr (value_function, h1) \<Rightarrow>
             (case policy_improvement_st value_function mdp gamma h1 of Inl e \<Rightarrow> Some (Inl e)
              | Inr (improved_policy, h2) \<Rightarrow>
                 (case get_dict h2 improved_policy of Inl e \<Rightarrow> Some (Inl e)
                  | Inr improved \<Rightarrow> (case rebuild improved state_space of Inl e \<Rightarrow> Some (Inl e)
                  | Inr d \<Rightarrow> (case get_dict h2 current_policy of Inl e \<Rightarrow> Some (Inl e)
                  | Inr current \<Rightarrow>
                      if dict_eq current d
                      then Some (Inr ((improved_policy, value_function), h2))
                      else pi_loop_st mdp gamma theta state_space improved_policy h2))))))"

definition policy_iteration_st ::
  "nat list \<Rightarrow> ref \<Rightarrow> real \<Rightarrow> real \<Rightarrow> heap \<Rightarrow> (error + (ref \<times> ref) \<times> heap) option" where
  "policy_iteration_st rnd mdp gamma theta h =
     (case get_mdp h mdp of Inl e \<Rightarrow> Some (Inl e)
      | Inr m \<Rightarrow> (case getitem m 0 of Inl e \<Rightarrow> Some (Inl e)
      | Inr row0 \<Rightarrow>
          if length row0 = 0 then Some (Inl ValueError)
          else (case alloc h (DictObj (enumerate 0 rnd)) of
                  (current_policy, h1) \<Rightarrow>
                    pi_loop_st mdp gamma theta (length m) current_policy h1)))"

partial_function (option) vi_loop_st ::
  "ref \<Rightarrow> real \<Rightarrow> real \<Rightarrow> nat \<Rightarrow> nat \<Rightarrow> ref \<Rightarrow> heap \<Rightarrow>
   (error + (ref \<times> ref) \<times> heap) option" where
  "vi_loop_st mdp gamma theta state_space action_space value_function h =
     (case alloc h (TableObj (replicate state_space (replicate action_space 0))) of
        (Q_vals, h1) \<Rightarrow>
          (case q_states_st mdp gamma value_function Q_vals action_space
                  [0..<state_space] h1 of
             Inl e \<Rightarrow> Some (Inl e)
           | Inr h2 \<Rightarrow> (case get_table h2 Q_vals of Inl e \<Rightarrow> Some (Inl e)
           | Inr q \<Rightarrow> (case np_max_axis1 q of Inl e \<Rightarrow> Some (Inl e)
           | Inr m \<Rightarrow> (case get_array h2 value_function of Inl e \<Rightarrow> Some (Inl e)
           | Inr vs \<Rightarrow> (case max_abs_diff vs m of Inl e \<Rightarrow> Some (Inl e)
           | Inr d \<Rightarrow>
               if d < theta then Some (Inr ((Q_vals, value_function), h2))
               else (case alloc h2 (ArrayObj m) of
                       (new_values, h3) \<Rightarrow>
                         vi_loop_st mdp gamma theta state_space action_space
                           new_values h3)))))))"

definition value_iteration_st ::
  "ref \<Rightarrow> real \<Rightarrow> real \<Rightarrow> heap \<Rightarrow> (error + (ref \<times> ref) \<times> heap) option" where
  "value_iteration_st mdp gamma theta h =
     (case get_mdp h mdp of Inl e \<Rightarrow> Some (Inl e)
      | Inr m \<Rightarrow> (case getitem m 0 of Inl e \<Rightarrow> Some (Inl e)
      | Inr row0 \<Rightarrow>
          (case alloc h (ArrayObj (replicate (length m) 0)) of
             (value_function, h0) \<Rightarrow>
               (case vi_loop_st mdp gamma theta (length m) (length row0) value_function h0 of
                  None \<Rightarrow> None
                | Some r \<Rightarrow>
                   (case r of Inl e \<Rightarrow> Some (Inl e)
                    | Inr ((Q_vals, final_values), h1) \<Rightarrow>
                       (case policy_constructor_st Q_vals h1 of Inl e \<Rightarrow> Some (Inl e)
                        | Inr (policy, h2) \<Rightarrow> Some (Inr ((policy, final_values), h2))))))))"

text \<open>
  Every object of the store \<open>h\<close> is in the store \<open>h'\<close> at the same reference and
  unchanged.
\<close>

definition preserved :: "heap \<Rightarrow> heap \<Rightarrow> bool" where
  "preserved h h' = (length h \<le> length h' \<and> take (length h) h' = h)"

text \<open>
  A store that holds the single-state process, the policy \<open>{0: 0}\<close> and the value
  function \<open>[0]\<close>.
\<close>

definition single_state_store :: heap where
  "single_state_store = [MdpObj single_state_mdp, DictObj [(0, 0)], ArrayObj [0]]"

text \<open>
  What a loop of element assignments leaves in an array: the values \<open>ys\<close> stored at the
  positions \<open>ss\<close>, in this order.
\<close>

fun store_all :: "'a list \<Rightarrow> nat list \<Rightarrow> 'a list \<Rightarrow> 'a list" where
  "store_all cs (s # ss) (y # ys) = store_all (cs[s := y]) ss ys"
| "store_all cs ss ys = cs"

text \<open>The result of a call over the store, with the returned reference read out.\<close>

fun returned_array :: "error + ref \<times> heap \<Rightarrow> error + real list" where
  "returned_array (Inl e) = Inl e"
| "returned_array (Inr (r, h)) = get_array h r"

fun returned_dict :: "error + ref \<times> heap \<Rightarrow> error + policy" where
  "returned_dict (Inl e) = Inl e"
| "returned_dict (Inr (r, h)) = get_dict h r"

fun returned_pair :: "error + (ref \<times> ref) \<times> heap \<Rightarrow> error + policy \<times> real list" where
  "returned_pair (Inl e) = Inl e"
| "returned_pair (Inr ((policy, value_function), h)) =
     (case get_dict h policy of Inl e \<Rightarrow> Inl e
      | Inr pol \<Rightarrow> (case get_array h value_function of Inl e \<Rightarrow> Inl e
      | Inr vs \<Rightarrow> Inr (pol, vs)))"

fun returned_tables ::
  "error + (ref \<times> ref) \<times> heap \<Rightarrow> error + real list list \<times> real list" where
  "returned_tables (Inl e) = Inl e"
| "returned_tables (Inr ((Q_vals, value_function), h)) =
     (case get_table h Q_vals of Inl e \<Rightarrow> Inl e
      | Inr q \<Rightarrow> (case get_array h value_function of Inl e \<Rightarrow> Inl e
      | Inr vs \<Rightarrow> Inr (q, vs)))"

section \<open>Bounded and unbounded loops\<close>

lemma pe_loop_n_sound:
  "pe_loop_n n pol mdp gamma theta vs = Some r \<Longrightarrow> pe_loop pol mdp gamma theta vs = Some r"
proof (induction n arbitrary: vs)
  case 0
  then show ?case by simp
next
  case (Suc n)
  show ?case
    using Suc.prems Suc.IH
    by (subst pe_loop.simps) (auto split: sum.splits if_splits)
qed

lemma pe_loop_induct [consumes 1, case_names sweep_error diff_error converged again]:
  assumes run: "pe_loop pol mdp gamma theta vs = Some y"
    and sweep_error: "\<And>vs e. pe_sweep pol mdp gamma vs = Inl e \<Longrightarrow> P vs (Inl e)"
    and diff_error: "\<And>vs cur e. pe_sweep pol mdp gamma vs = Inr cur \<Longrightarrow>
        max_abs_diff vs cur = Inl e \<Longrightarrow> P vs (Inl e)"
    and converged: "\<And>vs cur d. pe_sweep pol mdp gamma vs = Inr cur \<Longrightarrow>
        max_abs_diff vs cur = Inr d \<Longrightarrow> d < theta \<Longrightarrow> P vs (Inr cur)"
    and again: "\<And>vs cur d y. pe_sweep pol mdp gamma vs = Inr cur \<Longrightarrow>
        max_abs_diff vs cur = Inr d \<Longrightarrow> \<not> d < theta \<Longrightarrow>
        pe_loop pol mdp gamma theta cur = Some y \<Longrightarrow> P cur y \<Longrightarrow> P vs y"
  shows "P vs y"
proof -
  let ?R = "\<lambda>pol' mdp' gamma' theta' vs y.
     pol' = pol \<and> mdp' = mdp \<and> gamma' = gamma \<and> theta' = theta \<longrightarrow>
     pe_loop pol mdp gamma theta vs = Some y \<and> P vs y"
  have "?R pol mdp gamma theta vs y"
  proof (rule pe_loop.raw_induct [where P = ?R, OF _ run])
    fix f pol' mdp' gamma' theta' vs y
    assume IH: "\<And>pol' mdp' gamma' theta' vs y.
        f pol' mdp' gamma' theta' vs = Some y \<Longrightarrow> ?R pol' mdp' gamma' theta' vs y"
      and body: "(case pe_sweep pol' mdp' gamma' vs of Inl e \<Rightarrow> Some (Inl e)
        | Inr current_values \<Rightarrow>
           (case max_abs_diff vs current_values of Inl e \<Rightarrow> Some (Inl e)
            | Inr d \<Rightarrow> if d < theta' then Some (Inr current_values)
                       else f pol' mdp' gamma' theta' current_values)) = Some y"
    show "?R pol' mdp' gamma' theta' vs y"
    proof (intro impI)
      assume eq: "pol' = pol \<and> mdp' = mdp \<and> gamma' = gamma \<and> theta' = theta"
      show "pe_loop pol mdp gamma theta vs = Some y \<and> P vs y"
      proof (cases "pe_sweep pol mdp gamma vs")
        case (Inl e)
        with body eq sweep_error [OF Inl] show ?thesis
          by (subst pe_loop.simps) auto
      next
        case (Inr cur)
        show ?thesis
        proof (cases "max_abs_diff vs cur")
          case (Inl e)
          with body eq Inr diff_error [OF Inr Inl] show ?thesis
            by (subst pe_loop.simps) auto
        next
          case d: (Inr d)
          show ?thesis
          proof (cases "d < theta")
            case True
            with body eq Inr d converged [OF Inr d True] show ?thesis
              by (subst pe_loop.simps) auto
          next
            case False
            with body eq Inr d have "f pol mdp gamma theta cur = Some y" by simp
            from IH [OF this] have rec: "pe_loop pol mdp gamma theta cur = Some y" "P cur y"
              by simp_all
            from again [OF Inr d False rec] rec(1) Inr d False show ?thesis
              by (subst pe_loop.simps) auto
          qed
        qed
      qed
    qed
  qed
  then show ?thesis by simp
qed

lemma pe_loop_n_complete:
  assumes "pe_loop pol mdp gamma theta vs = Some y"
  shows "\<exists>n. pe_loop_n n pol mdp gamma theta vs = Some y"
  using assms
proof (induction rule: pe_loop_induct)
  case (again vs cur d y)
  then obtain n where "pe_loop_n n pol mdp gamma theta cur = Some y" by blast
  with again have "pe_loop_n (Suc n) pol mdp gamma theta vs = Some y" by simp
  then show ?case by blast
qed (auto intro: exI [of _ "Suc 0"])

text \<open>
  The loop with the counter returns what the loop without it returns, and the count it
  returns is the least bound on the number of sweeps under which the loop returns.
\<close>

lemma pe_loop_sweeps_sound:
  assumes run: "pe_loop_sweeps pol mdp gamma theta vs k = Some y"
  shows "pe_loop pol mdp gamma theta vs = Some (map_sum id fst y)
         \<and> (\<forall>V k'. y = Inr (V, k') \<longrightarrow> k < k'
              \<and> pe_loop_n (k' - k) pol mdp gamma theta vs = Some (Inr V)
              \<and> pe_loop_n (k' - Suc k) pol mdp gamma theta vs = None)"
proof -
  let ?P = "\<lambda>(pol :: policy) (mdp :: mdp) (gamma :: real) (theta :: real) (vs :: real list)
      (k :: nat) (y :: error + real list \<times> nat).
      pe_loop pol mdp gamma theta vs = Some (map_sum id fst y)
      \<and> (\<forall>V k'. y = Inr (V, k') \<longrightarrow> k < k'
              \<and> pe_loop_n (k' - k) pol mdp gamma theta vs = Some (Inr V)
              \<and> pe_loop_n (k' - Suc k) pol mdp gamma theta vs = None)"
  show "?P pol mdp gamma theta vs k y"
  proof (rule pe_loop_sweeps.raw_induct [where P = ?P, OF _ run])
    fix f pol mdp gamma theta vs k y
    assume IH: "\<And>pol mdp gamma theta vs k y.
        f pol mdp gamma theta vs k = Some y \<Longrightarrow> ?P pol mdp gamma theta vs k y"
      and body: "(case pe_sweep pol mdp gamma vs of Inl e \<Rightarrow> Some (Inl e)
        | Inr current_values \<Rightarrow>
           (case max_abs_diff vs current_values of Inl e \<Rightarrow> Some (Inl e)
            | Inr d \<Rightarrow> if d < theta then Some (Inr (current_values, Suc k))
                       else f pol mdp gamma theta current_values (Suc k))) = Some y"
    show "?P pol mdp gamma theta vs k y"
    proof (cases "pe_sweep pol mdp gamma vs")
      case (Inl e)
      with body have "y = Inl e" by simp
      with Inl show ?thesis by (subst pe_loop.simps) simp
    next
      case (Inr cur)
      show ?thesis
      proof (cases "max_abs_diff vs cur")
        case (Inl e)
        with body Inr have "y = Inl e" by simp
        with Inl Inr show ?thesis by (subst pe_loop.simps) simp
      next
        case d: (Inr d)
        show ?thesis
        proof (cases "d < theta")
          case True
          with body Inr d have "y = Inr (cur, Suc k)" by simp
          with True Inr d show ?thesis by (subst pe_loop.simps) simp
        next
          case False
          with body Inr d have "f pol mdp gamma theta cur (Suc k) = Some y" by simp
          from IH [OF this] have rec: "pe_loop pol mdp gamma theta cur = Some (map_sum id fst y)"
            and cnt: "\<And>V k'. y = Inr (V, k') \<Longrightarrow> Suc k < k'
              \<and> pe_loop_n (k' - Suc k) pol mdp gamma theta cur = Some (Inr V)
              \<and> pe_loop_n (k' - Suc (Suc k)) pol mdp gamma theta cur = None"
            by blast+
          have "pe_loop pol mdp gamma theta vs = Some (map_sum id fst y)"
            using False Inr d rec by (subst pe_loop.simps) simp
          moreover have "k < k' \<and> pe_loop_n (k' - k) pol mdp gamma theta vs = Some (Inr V)
              \<and> pe_loop_n (k' - Suc k) pol mdp gamma theta vs = None"
            if y: "y = Inr (V, k')" for V k'
          proof -
            from cnt [OF y] have lt: "Suc k < k'"
              and a: "pe_loop_n (k' - Suc k) pol mdp gamma theta cur = Some (Inr V)"
              and b: "pe_loop_n (k' - Suc (Suc k)) pol mdp gamma theta cur = None" by simp_all
            from lt have e1: "k' - k = Suc (k' - Suc k)"
              and e2: "k' - Suc k = Suc (k' - Suc (Suc k))" by simp_all
            have "pe_loop_n (k' - k) pol mdp gamma theta vs = Some (Inr V)"
              unfolding e1 using False Inr d a by simp
            moreover have "pe_loop_n (k' - Suc k) pol mdp gamma theta vs = None"
              by (subst e2) (use False Inr d b in simp)
            ultimately show ?thesis using lt by simp
          qed
          ultimately show ?thesis by blast
        qed
      qed
    qed
  qed
qed

lemma pe_loop_sweeps_complete:
  assumes "pe_loop pol mdp gamma theta vs = Some z"
  shows "\<exists>y. pe_loop_sweeps pol mdp gamma theta vs k = Some y"
proof -
  from assms have "\<forall>k. \<exists>y. pe_loop_sweeps pol mdp gamma theta vs k = Some y"
  proof (induction rule: pe_loop_induct)
    case (sweep_error vs e)
    then show ?case by (subst pe_loop_sweeps.simps) simp
  next
    case (diff_error vs cur e)
    then show ?case by (subst pe_loop_sweeps.simps) simp
  next
    case (converged vs cur d)
    then show ?case by (subst pe_loop_sweeps.simps) simp
  next
    case (again vs cur d y)
    show ?case
    proof
      fix k
      from again.IH obtain y' where "pe_loop_sweeps pol mdp gamma theta cur (Suc k) = Some y'"
        by blast
      with again(1-3) show "\<exists>y. pe_loop_sweeps pol mdp gamma theta vs k = Some y"
        by (subst pe_loop_sweeps.simps) simp
    qed
  qed
  then show ?thesis by blast
qed

lemma policy_evaluation_sweeps_forget:
  "map_option (map_sum id fst) (policy_evaluation_sweeps pol mdp gamma theta) =
   policy_evaluation pol mdp gamma theta"
proof (cases "policy_evaluation_sweeps pol mdp gamma theta")
  case None
  have "policy_evaluation pol mdp gamma theta = None"
  proof (cases "policy_evaluation pol mdp gamma theta")
    case (Some z)
    from pe_loop_sweeps_complete [OF Some [unfolded policy_evaluation_def], of 0] None
    show ?thesis by (simp add: policy_evaluation_sweeps_def)
  qed simp
  with None show ?thesis by simp
next
  case (Some y)
  from pe_loop_sweeps_sound [OF Some [unfolded policy_evaluation_sweeps_def]] Some
  show ?thesis by (simp add: policy_evaluation_def)
qed

lemma policy_evaluation_sweeps_least:
  assumes "policy_evaluation_sweeps pol mdp gamma theta = Some (Inr (V, k))"
  shows "0 < k"
    and "pe_loop_n k pol mdp gamma theta (replicate (length mdp) 0) = Some (Inr V)"
    and "pe_loop_n (k - 1) pol mdp gamma theta (replicate (length mdp) 0) = None"
  using pe_loop_sweeps_sound [OF assms [unfolded policy_evaluation_sweeps_def]]
  by simp_all

section \<open>The single-state scenario\<close>

lemma single_state_counted:
  "0 < theta \<Longrightarrow>
   policy_evaluation_sweeps [(0, 0)] single_state_mdp gamma theta = Some (Inr ([0], 1))"
  unfolding policy_evaluation_sweeps_def
  by (subst pe_loop_sweeps.simps)
    (simp add: single_state_mdp_def pe_sweep_def getitem_def np_index_def max_abs_diff_def)

text \<open>
  C7: on the process with one state, one action and the single outcome
  (probability 1, next state 0, reward 0, terminal), policy evaluation of the policy
  \<open>{0: 0}\<close> with any positive \<open>theta\<close> performs exactly one sweep of the loop and returns
  the value function \<open>[0]\<close>. The loop with its sweeps counted returns \<open>[0]\<close> and the count
  1; forgetting the count gives \<open>policy_evaluation\<close>, on every input; and the loop cut
  off after one sweep returns \<open>[0]\<close> while the loop cut off before its first sweep
  returns nothing.
\<close>

theorem single_state_one_sweep:
  "0 < theta \<Longrightarrow>
     policy_evaluation [(0, 0)] single_state_mdp gamma theta = Some (Inr [0])
   \<and> policy_evaluation_sweeps [(0, 0)] single_state_mdp gamma theta = Some (Inr ([0], 1))
   \<and> map_option (map_sum id fst) (policy_evaluation_sweeps pol mdp g t)
       = policy_evaluation pol mdp g t
   \<and> pe_loop_n 1 [(0, 0)] single_state_mdp gamma theta
        (replicate (length single_state_mdp) 0) = Some (Inr [0])
   \<and> pe_loop_n 0 [(0, 0)] single_state_mdp gamma theta
        (replicate (length single_state_mdp) 0) = None"
proof -
  assume th: "0 < theta"
  note counted = single_state_counted [OF th, of gamma]
  have "policy_evaluation [(0, 0)] single_state_mdp gamma theta = Some (Inr [0])"
    using policy_evaluation_sweeps_forget [of "[(0, 0)]" single_state_mdp gamma theta]
    by (simp add: counted)
  moreover have "pe_loop_n 1 [(0, 0)] single_state_mdp gamma theta
        (replicate (length single_state_mdp) 0) = Some (Inr [0])"
    using policy_evaluation_sweeps_least(2) [OF counted] by simp
  ultimately show ?thesis
    using counted policy_evaluation_sweeps_forget [of pol mdp g t] by simp
qed

theorem single_state_one_sweep_witness:
  "(0::real) < 1 / 10 ^ 10
   \<and> policy_evaluation [(0, 0)] single_state_mdp 1 (1 / 10 ^ 10) = Some (Inr [0])
   \<and> policy_evaluation_sweeps [(0, 0)] single_state_mdp 1 (1 / 10 ^ 10) = Some (Inr ([0], 1))
   \<and> map_option (map_sum id fst) (policy_evaluation_sweeps [(0, 0)] self_loop_mdp (1/2) (1/10))
       = policy_evaluation [(0, 0)] self_loop_mdp (1/2) (1/10)
   \<and> pe_loop_n 1 [(0, 0)] single_state_mdp 1 (1 / 10 ^ 10)
        (replicate (length single_state_mdp) 0) = Some (Inr [0])
   \<and> pe_loop_n 0 [(0, 0)] single_state_mdp 1 (1 / 10 ^ 10)
        (replicate (length single_state_mdp) 0) = None"
proof -
  have h: "(0::real) < 1 / 10 ^ 10" by simp
  from single_state_one_sweep [OF h, of 1 "[(0, 0)]" self_loop_mdp "1/2" "1/10"] h
  show ?thesis by blast
qed

section \<open>A policy that never ends\<close>

lemma exchange_sweep:
  "pe_sweep [(0, 0), (1, 0)] exchange_mdp 1 [x, y] = Inr [1 + y, x - 1]"
  by (simp add: pe_sweep_def exchange_mdp_def getitem_def np_index_def)

lemma exchange_never:
  assumes "pe_loop [(0, 0), (1, 0)] exchange_mdp 1 theta vs = Some y" and "theta \<le> 1"
  shows "vs \<noteq> [0, 0] \<and> vs \<noteq> [1, - 1]"
  using assms(1)
proof (induction rule: pe_loop_induct)
  case (sweep_error vs e)
  then show ?case by (auto simp: exchange_sweep simp del: One_nat_def)
next
  case (diff_error vs cur e)
  then show ?case by (auto simp: exchange_sweep max_abs_diff_def simp del: One_nat_def)
next
  case (converged vs cur d)
  then show ?case using assms(2) by (auto simp: exchange_sweep max_abs_diff_def simp del: One_nat_def)
next
  case (again vs cur d y)
  then show ?case by (auto simp: exchange_sweep simp del: One_nat_def)
qed

text \<open>
  C5: policy evaluation has no limit on the number of sweeps, and on some inputs it
  never returns. With \<open>gamma = 1\<close>, on the process of two states that send to each other
  with probability 1, not terminal, with the rewards 1 and -1, the sweeps alternate
  between \<open>[1, -1]\<close> and \<open>[0, 0]\<close>: every sweep changes both values by exactly 1, so for
  every \<open>theta\<close> up to 1, the default \<open>1e-10\<close> among them, the test \<open>< theta\<close> never
  holds, no number of sweeps is enough and the call does not return. The only numbers
  of this run are 0, 1 and -1, which float64 adds without rounding.
\<close>

theorem evaluation_can_loop_forever:
  "theta \<le> 1 \<Longrightarrow>
     policy_evaluation [(0, 0), (1, 0)] exchange_mdp 1 theta = None
   \<and> pe_loop_n n [(0, 0), (1, 0)] exchange_mdp 1 theta (replicate (length exchange_mdp) 0) = None
   \<and> pe_sweep [(0, 0), (1, 0)] exchange_mdp 1 [0, 0] = Inr [1, - 1]
   \<and> pe_sweep [(0, 0), (1, 0)] exchange_mdp 1 [1, - 1] = Inr [0, 0]"
proof -
  assume th: "theta \<le> 1"
  have len: "replicate (length exchange_mdp) (0::real) = [0, 0]"
    by (simp add: exchange_mdp_def)
  have none: "pe_loop [(0, 0), (1, 0)] exchange_mdp 1 theta [0, 0] = None"
  proof (cases "pe_loop [(0, 0), (1, 0)] exchange_mdp 1 theta [0, 0]")
    case (Some y)
    from exchange_never [OF Some th] show ?thesis by simp
  qed simp
  have "pe_loop_n n [(0, 0), (1, 0)] exchange_mdp 1 theta [0, 0] = None"
  proof (cases "pe_loop_n n [(0, 0), (1, 0)] exchange_mdp 1 theta [0, 0]")
    case (Some y)
    from pe_loop_n_sound [OF Some] none show ?thesis by simp
  qed simp
  with none show ?thesis
    by (simp add: policy_evaluation_def len exchange_sweep del: One_nat_def)
qed

theorem evaluation_can_loop_forever_witness:
  "(1 / 10 ^ 10 :: real) \<le> 1
   \<and> policy_evaluation [(0, 0), (1, 0)] exchange_mdp 1 (1 / 10 ^ 10) = None
   \<and> pe_loop_n 1000 [(0, 0), (1, 0)] exchange_mdp 1 (1 / 10 ^ 10)
       (replicate (length exchange_mdp) 0) = None
   \<and> pe_sweep [(0, 0), (1, 0)] exchange_mdp 1 [0, 0] = Inr [1, - 1]
   \<and> pe_sweep [(0, 0), (1, 0)] exchange_mdp 1 [1, - 1] = Inr [0, 0]"
proof -
  have h: "(1 / 10 ^ 10 :: real) \<le> 1" by simp
  from evaluation_can_loop_forever [OF h, of 1000] h show ?thesis by blast
qed

section \<open>Arrays, loops over them and the backup\<close>

lemma mapM_err_Inr_iff: "mapM_err f xs = Inr ys \<longleftrightarrow> map f xs = map Inr ys"
proof (induction xs arbitrary: ys)
  case Nil
  then show ?case by auto
next
  case (Cons x xs)
  show ?case
  proof (cases ys)
    case Nil
    then show ?thesis by (auto split: sum.splits)
  next
    case (Cons y ys')
    with Cons.IH [of ys'] show ?thesis by (auto split: sum.splits)
  qed
qed

lemma mapM_err_length: "mapM_err f xs = Inr ys \<Longrightarrow> length ys = length xs"
  by (metis length_map mapM_err_Inr_iff)

lemma mapM_err_nth:
  "mapM_err f xs = Inr ys \<Longrightarrow> i < length xs \<Longrightarrow> f (xs ! i) = Inr (ys ! i)"
  unfolding mapM_err_Inr_iff
  by (metis length_map nth_map)

lemma mapM_err_total:
  "(\<And>x. x \<in> set xs \<Longrightarrow> \<exists>y. f x = Inr y) \<Longrightarrow> \<exists>ys. mapM_err f xs = Inr ys"
proof (induction xs)
  case Nil
  then show ?case by simp
next
  case (Cons x xs)
  then obtain y where "f x = Inr y" by auto
  moreover from Cons obtain ys where "mapM_err f xs = Inr ys" by auto
  ultimately show ?case by simp
qed

lemma wrap_index_less: "index_ok n i \<Longrightarrow> wrap_index n i < n"
  by (auto simp: index_ok_def wrap_index_def)

lemma np_index_eq:
  "np_index xs i = (if index_ok (length xs) i then Inr (xs ! wrap_index (length xs) i)
                    else Inl IndexError)"
  by (auto simp: np_index_def index_ok_def wrap_index_def)

lemma accumulate_eq:
  "accumulate gamma vs acc outcomes =
     (if outcomes_ok (length vs) outcomes then Inr (acc + expected_return gamma vs outcomes)
      else Inl IndexError)"
proof (induction outcomes arbitrary: acc)
  case Nil
  then show ?case by (simp add: outcomes_ok_def expected_return_def)
next
  case (Cons o1 outcomes)
  obtain p s' r d where o1: "o1 = (p, s', r, d)" by (cases o1) auto
  show ?case
    using Cons.IH
    by (simp add: o1 np_index_eq outcomes_ok_def expected_return_def)
qed

lemma fold_max_Max: "fold max xs (x::real) = Max (set (x # xs))"
  by (simp only: Max.set_eq_fold)

lemma np_max_eq: "np_max xs = (if xs = [] then Inl ValueError else Inr (Max (set xs)))"
proof (cases xs)
  case Nil
  then show ?thesis by simp
next
  case (Cons x xs')
  then show ?thesis by (simp only: np_max.simps fold_max_Max) simp
qed

lemma argmax_scan_spec:
  assumes "length pre = i" "best_i < i" "pre ! best_i = best"
    "\<forall>b<i. pre ! b \<le> best" "\<forall>b<best_i. pre ! b < best"
  shows "argmax_scan xs i best best_i < length (pre @ xs) \<and>
         (\<forall>b<length (pre @ xs). (pre @ xs) ! b \<le> (pre @ xs) ! argmax_scan xs i best best_i) \<and>
         (\<forall>b<argmax_scan xs i best best_i. (pre @ xs) ! b < (pre @ xs) ! argmax_scan xs i best best_i)"
  using assms
proof (induction xs arbitrary: pre i best best_i)
  case Nil
  then show ?case by simp
next
  case (Cons x xs)
  show ?case
  proof (cases "best < x")
    case True
    have "argmax_scan xs (Suc i) x i < length ((pre @ [x]) @ xs) \<and>
         (\<forall>b<length ((pre @ [x]) @ xs). ((pre @ [x]) @ xs) ! b \<le> ((pre @ [x]) @ xs) ! argmax_scan xs (Suc i) x i) \<and>
         (\<forall>b<argmax_scan xs (Suc i) x i. ((pre @ [x]) @ xs) ! b < ((pre @ [x]) @ xs) ! argmax_scan xs (Suc i) x i)"
    proof (rule Cons.IH)
      show "length (pre @ [x]) = Suc i" using Cons.prems by simp
      show "i < Suc i" by simp
      show "(pre @ [x]) ! i = x" using Cons.prems(1) by (simp add: nth_append)
      show "\<forall>b<Suc i. (pre @ [x]) ! b \<le> x"
        using Cons.prems True by (auto simp: nth_append less_Suc_eq intro: less_imp_le order_trans)
      show "\<forall>b<i. (pre @ [x]) ! b < x"
        using Cons.prems True by (auto simp: nth_append intro: le_less_trans)
    qed
    with True show ?thesis by simp
  next
    case False
    have "argmax_scan xs (Suc i) best best_i < length ((pre @ [x]) @ xs) \<and>
         (\<forall>b<length ((pre @ [x]) @ xs). ((pre @ [x]) @ xs) ! b \<le> ((pre @ [x]) @ xs) ! argmax_scan xs (Suc i) best best_i) \<and>
         (\<forall>b<argmax_scan xs (Suc i) best best_i. ((pre @ [x]) @ xs) ! b < ((pre @ [x]) @ xs) ! argmax_scan xs (Suc i) best best_i)"
    proof (rule Cons.IH)
      show "length (pre @ [x]) = Suc i" using Cons.prems by simp
      show "best_i < Suc i" using Cons.prems by simp
      show "(pre @ [x]) ! best_i = best" using Cons.prems by (simp add: nth_append)
      show "\<forall>b<Suc i. (pre @ [x]) ! b \<le> best"
        using Cons.prems False by (auto simp: nth_append less_Suc_eq)
      show "\<forall>b<best_i. (pre @ [x]) ! b < best"
        using Cons.prems by (auto simp: nth_append)
    qed
    with False show ?thesis by simp
  qed
qed

lemma np_argmax_spec:
  assumes "np_argmax xs = Inr a"
  shows "a < length xs \<and> (\<forall>b<length xs. xs ! b \<le> xs ! a) \<and> (\<forall>b<a. xs ! b < xs ! a)"
proof (cases xs)
  case Nil
  with assms show ?thesis by simp
next
  case (Cons x xs')
  with assms have a: "a = argmax_scan xs' 1 x 0" by simp
  from argmax_scan_spec [of "[x]" 1 0 x xs'] show ?thesis
    by (simp add: a Cons)
qed

section \<open>The action-value table and the greedy policy\<close>

lemma mapM_err_upt_nth:
  "mapM_err f [0..<n] = Inr ys \<Longrightarrow> i < n \<Longrightarrow> f i = Inr (ys ! i)"
  using mapM_err_nth [of f "[0..<n]" ys i] by simp

lemma q_sweep_shape:
  assumes "q_sweep vs mdp gamma S A = Inr Q"
  shows "length Q = S" and "s < S \<Longrightarrow> length (Q ! s) = A"
proof -
  from assms show len: "length Q = S"
    by (auto simp: q_sweep_def dest: mapM_err_length)
  assume s: "s < S"
  from mapM_err_upt_nth [OF assms [unfolded q_sweep_def], of s] s
  show "length (Q ! s) = A"
    by (auto dest: mapM_err_length)
qed

lemma q_sweep_entry:
  assumes "q_sweep vs mdp gamma S A = Inr Q" and s: "s < S" and a: "a < A"
  shows "action_value gamma vs mdp s a = Some (Q ! s ! a)"
proof -
  let ?f = "\<lambda>state action.
           case getitem mdp state of Inl e \<Rightarrow> Inl e
           | Inr row \<Rightarrow> (case getitem row action of Inl e \<Rightarrow> Inl e
           | Inr outcomes \<Rightarrow> accumulate gamma vs 0 outcomes)"
  from mapM_err_upt_nth [OF assms(1) [unfolded q_sweep_def], of s] s
  have "mapM_err (?f s) [0..<A] = Inr (Q ! s)" by simp
  from mapM_err_upt_nth [OF this a] have "?f s a = Inr (Q ! s ! a)" .
  then show ?thesis
    by (auto simp: action_value_def outcomes_at_def getitem_def accumulate_eq
             split: option.splits sum.splits if_splits)
qed

lemma map_of_enumerate:
  "i < length xs \<Longrightarrow> map_of (enumerate 0 xs) i = Some (xs ! i)"
proof -
  assume i: "i < length xs"
  have "distinct (map fst (enumerate 0 xs))" by simp
  moreover have "(i, xs ! i) \<in> set (enumerate 0 xs)"
    using i by (simp add: in_set_enumerate_eq)
  ultimately show ?thesis by (simp only: map_of_eq_Some_iff)
qed

lemma policy_constructor_spec:
  assumes "policy_constructor Q = Inr pol"
  shows "map fst pol = [0..<length Q]"
    and "s < length Q \<Longrightarrow> \<exists>a. map_of pol s = Some a \<and> np_argmax (Q ! s) = Inr a"
proof -
  from assms obtain acts where acts: "mapM_err np_argmax Q = Inr acts"
    and pol: "pol = enumerate 0 acts"
    by (auto simp: policy_constructor_def np_argmax_axis1_def split: sum.splits)
  have len: "length acts = length Q" using acts by (rule mapM_err_length)
  show "map fst pol = [0..<length Q]" by (simp add: pol len)
  assume s: "s < length Q"
  from mapM_err_nth [OF acts s] have "np_argmax (Q ! s) = Inr (acts ! s)" .
  moreover have "map_of pol s = Some (acts ! s)"
    using s len by (simp add: pol map_of_enumerate)
  ultimately show "\<exists>a. map_of pol s = Some a \<and> np_argmax (Q ! s) = Inr a" by blast
qed

lemma greedy_from_table:
  assumes row0: "map_of mdp 0 = Some row0"
    and q: "q_sweep vs mdp gamma (length mdp) (length row0) = Inr Q"
    and pc: "policy_constructor Q = Inr pol"
  shows "greedy_policy gamma vs mdp pol"
proof -
  have "case map_of pol s of None \<Rightarrow> False
        | Some a \<Rightarrow> lowest_argmax (action_value gamma vs mdp s) (length row0) a"
    if s: "s < length mdp" for s
  proof -
    have lenQ: "length Q = length mdp" using q by (rule q_sweep_shape)
    have lenr: "length (Q ! s) = length row0" using q s by (rule q_sweep_shape)
    from policy_constructor_spec(2) [OF pc, of s] s lenQ
    obtain a where a: "map_of pol s = Some a" "np_argmax (Q ! s) = Inr a" by auto
    from np_argmax_spec [OF a(2)] lenr
    have am: "a < length row0" "\<forall>b<length row0. Q ! s ! b \<le> Q ! s ! a"
      "\<forall>b<a. Q ! s ! b < Q ! s ! a" by auto
    have "lowest_argmax (action_value gamma vs mdp s) (length row0) a"
      unfolding lowest_argmax_def
    proof (intro conjI allI impI)
      show "a < length row0" by (rule am)
      fix b assume b: "b < length row0"
      from q_sweep_entry [OF q s b] q_sweep_entry [OF q s am(1)] am(2,3) b
      show "case (action_value gamma vs mdp s b, action_value gamma vs mdp s a) of
              (Some x, Some y) \<Rightarrow> x \<le> y \<and> (b < a \<longrightarrow> x < y) | _ \<Rightarrow> False"
        by simp
    qed
    with a(1) show ?thesis by simp
  qed
  with row0 show ?thesis by (simp add: greedy_policy_def)
qed

text \<open>
  C3: policy improvement is a function of its three arguments, so two calls with equal
  inputs return equal policies, and the policy it returns maps every state to the
  lowest-indexed action among those that maximise \<open>Q[s][a]\<close>.
\<close>

theorem policy_improvement_lowest_argmax:
  "policy_improvement vs mdp gamma = Inr pol \<Longrightarrow>
     greedy_policy gamma vs mdp pol
   \<and> (\<forall>pol'. policy_improvement vs mdp gamma = Inr pol' \<longrightarrow> pol' = pol)"
proof -
  assume run: "policy_improvement vs mdp gamma = Inr pol"
  then obtain row0 Q where row0: "map_of mdp 0 = Some row0"
    and q: "q_sweep vs mdp gamma (length mdp) (length row0) = Inr Q"
    and pc: "policy_constructor Q = Inr pol"
    by (auto simp: policy_improvement_def getitem_def split: option.splits sum.splits)
  from greedy_from_table [OF row0 q pc] run show ?thesis by simp
qed

lemma upt_5: "[0..<5] = [0, 1, 2, 3, 4]"
  by (simp add: upt_rec)

lemma upt_2: "[0..<2] = [0, 1]"
  by (simp add: upt_rec)

lemma sbw_first_improvement:
  "policy_improvement [0, 0, 0, 0, 0] slippery_bandit_walk 1 =
     Inr [(0, 0), (1, 0), (2, 0), (3, 1), (4, 0)]"
  by (simp add: policy_improvement_def slippery_bandit_walk_def getitem_def q_sweep_def
      upt_5 upt_2 np_index_def policy_constructor_def np_argmax_axis1_def enumerate_eq_zip)

theorem policy_improvement_lowest_argmax_witness:
  "policy_improvement [0, 0, 0, 0, 0] slippery_bandit_walk 1 =
     Inr [(0, 0), (1, 0), (2, 0), (3, 1), (4, 0)]
   \<and> greedy_policy 1 [0, 0, 0, 0, 0] slippery_bandit_walk [(0, 0), (1, 0), (2, 0), (3, 1), (4, 0)]"
  using policy_improvement_lowest_argmax [OF sbw_first_improvement] sbw_first_improvement
  by blast

section \<open>Value iteration\<close>

lemma vi_loop_n_sound:
  "vi_loop_n n mdp gamma theta S A vs = Some r \<Longrightarrow> vi_loop mdp gamma theta S A vs = Some r"
proof (induction n arbitrary: vs)
  case 0
  then show ?case by simp
next
  case (Suc n)
  show ?case
    using Suc.prems Suc.IH
    by (subst vi_loop.simps) (auto split: sum.splits if_splits)
qed

lemma vi_loop_induct [consumes 1, case_names table_error max_error diff_error converged again]:
  assumes run: "vi_loop mdp gamma theta S A vs = Some y"
    and table_error: "\<And>vs e. q_sweep vs mdp gamma S A = Inl e \<Longrightarrow> P vs (Inl e)"
    and max_error: "\<And>vs Q e. q_sweep vs mdp gamma S A = Inr Q \<Longrightarrow>
        np_max_axis1 Q = Inl e \<Longrightarrow> P vs (Inl e)"
    and diff_error: "\<And>vs Q m e. q_sweep vs mdp gamma S A = Inr Q \<Longrightarrow>
        np_max_axis1 Q = Inr m \<Longrightarrow> max_abs_diff vs m = Inl e \<Longrightarrow> P vs (Inl e)"
    and converged: "\<And>vs Q m d. q_sweep vs mdp gamma S A = Inr Q \<Longrightarrow>
        np_max_axis1 Q = Inr m \<Longrightarrow> max_abs_diff vs m = Inr d \<Longrightarrow> d < theta \<Longrightarrow>
        P vs (Inr (Q, vs))"
    and again: "\<And>vs Q m d y. q_sweep vs mdp gamma S A = Inr Q \<Longrightarrow>
        np_max_axis1 Q = Inr m \<Longrightarrow> max_abs_diff vs m = Inr d \<Longrightarrow> \<not> d < theta \<Longrightarrow>
        vi_loop mdp gamma theta S A m = Some y \<Longrightarrow> P m y \<Longrightarrow> P vs y"
  shows "P vs y"
proof -
  let ?R = "\<lambda>mdp' gamma' theta' S' A' vs y.
     mdp' = mdp \<and> gamma' = gamma \<and> theta' = theta \<and> S' = S \<and> A' = A \<longrightarrow>
     vi_loop mdp gamma theta S A vs = Some y \<and> P vs y"
  have "?R mdp gamma theta S A vs y"
  proof (rule vi_loop.raw_induct [where P = ?R, OF _ run])
    fix f mdp' gamma' theta' S' A' vs y
    assume IH: "\<And>mdp' gamma' theta' S' A' vs y.
        f mdp' gamma' theta' S' A' vs = Some y \<Longrightarrow> ?R mdp' gamma' theta' S' A' vs y"
      and body: "(case q_sweep vs mdp' gamma' S' A' of Inl e \<Rightarrow> Some (Inl e)
        | Inr Q_vals \<Rightarrow>
           (case np_max_axis1 Q_vals of Inl e \<Rightarrow> Some (Inl e)
            | Inr m \<Rightarrow>
               (case max_abs_diff vs m of Inl e \<Rightarrow> Some (Inl e)
                | Inr d \<Rightarrow> if d < theta' then Some (Inr (Q_vals, vs))
                           else f mdp' gamma' theta' S' A' m))) = Some y"
    show "?R mdp' gamma' theta' S' A' vs y"
    proof (intro impI)
      assume eq: "mdp' = mdp \<and> gamma' = gamma \<and> theta' = theta \<and> S' = S \<and> A' = A"
      show "vi_loop mdp gamma theta S A vs = Some y \<and> P vs y"
      proof (cases "q_sweep vs mdp gamma S A")
        case (Inl e)
        with body eq table_error [OF Inl] show ?thesis
          by (subst vi_loop.simps) auto
      next
        case Q: (Inr Q)
        show ?thesis
        proof (cases "np_max_axis1 Q")
          case (Inl e)
          with body eq Q max_error [OF Q Inl] show ?thesis
            by (subst vi_loop.simps) auto
        next
          case m: (Inr m)
          show ?thesis
          proof (cases "max_abs_diff vs m")
            case (Inl e)
            with body eq Q m diff_error [OF Q m Inl] show ?thesis
              by (subst vi_loop.simps) auto
          next
            case d: (Inr d)
            show ?thesis
            proof (cases "d < theta")
              case True
              with body eq Q m d converged [OF Q m d True] show ?thesis
                by (subst vi_loop.simps) auto
            next
              case False
              with body eq Q m d have "f mdp gamma theta S A m = Some y" by simp
              from IH [OF this] have rec: "vi_loop mdp gamma theta S A m = Some y" "P m y"
                by simp_all
              from again [OF Q m d False rec] rec(1) Q m d False show ?thesis
                by (subst vi_loop.simps) auto
            qed
          qed
        qed
      qed
    qed
  qed
  then show ?thesis by simp
qed

lemma max_abs_diff_nth:
  assumes "max_abs_diff xs ys = Inr d" and "length xs = length ys" and "i < length xs"
  shows "\<bar>xs ! i - ys ! i\<bar> \<le> d"
proof -
  let ?ds = "map abs (map2 (-) xs ys)"
  from assms(1) have ne: "?ds \<noteq> []" and d: "d = Max (set ?ds)"
    by (auto simp: max_abs_diff_def np_max_eq split: if_splits)
  have "?ds ! i = \<bar>xs ! i - ys ! i\<bar>" using assms(2,3) by simp
  moreover have "?ds ! i \<in> set ?ds" using assms(2,3) by (intro nth_mem) simp
  ultimately show ?thesis unfolding d by (metis List.finite_set Max_ge)
qed

lemma np_max_argmax:
  assumes "np_max xs = Inr m" and "np_argmax xs = Inr a"
  shows "m = xs ! a"
proof -
  from assms(1) have ne: "xs \<noteq> []" and m: "m = Max (set xs)"
    by (auto simp: np_max_eq split: if_splits)
  from np_argmax_spec [OF assms(2)]
  have a: "a < length xs" "\<forall>b<length xs. xs ! b \<le> xs ! a" by auto
  have "Max (set xs) = xs ! a"
  proof (rule Max_eqI)
    show "finite (set xs)" by simp
    show "xs ! a \<in> set xs" using a(1) by simp
    fix y assume "y \<in> set xs"
    then obtain b where "b < length xs" "y = xs ! b" by (auto simp: in_set_conv_nth)
    with a(2) show "y \<le> xs ! a" by simp
  qed
  with m show ?thesis by simp
qed

lemma vi_loop_result:
  assumes "vi_loop mdp gamma theta S A vs = Some y"
  shows "length vs = S \<longrightarrow> (\<forall>Q V. y = Inr (Q, V) \<longrightarrow>
     length V = S \<and> q_sweep V mdp gamma S A = Inr Q \<and>
     (\<exists>m d. np_max_axis1 Q = Inr m \<and> max_abs_diff V m = Inr d \<and> d < theta))"
  using assms
proof (induction rule: vi_loop_induct)
  case (again vs Q m d y)
  have "length m = S"
    using again(1,2) q_sweep_shape(1) [of vs mdp gamma S A Q]
    by (auto simp: np_max_axis1_def dest: mapM_err_length)
  with again show ?case by simp
qed auto

lemma value_iteration_result:
  assumes "value_iteration mdp gamma theta = Some (Inr (pol, V))"
  obtains row0 Q m d where "map_of mdp 0 = Some row0" "length V = length mdp"
    "q_sweep V mdp gamma (length mdp) (length row0) = Inr Q"
    "policy_constructor Q = Inr pol" "np_max_axis1 Q = Inr m"
    "max_abs_diff V m = Inr d" "d < theta"
proof -
  from assms obtain row0 Q where row0: "map_of mdp 0 = Some row0"
    and loop: "vi_loop mdp gamma theta (length mdp) (length row0)
                 (replicate (length mdp) 0) = Some (Inr (Q, V))"
    and pc: "policy_constructor Q = Inr pol"
    by (auto simp: value_iteration_def getitem_def split: option.splits sum.splits)
  from vi_loop_result [OF loop] obtain m d where "length V = length mdp"
    "q_sweep V mdp gamma (length mdp) (length row0) = Inr Q"
    "np_max_axis1 Q = Inr m" "max_abs_diff V m = Inr d" "d < theta"
    by auto
  with row0 pc that show ?thesis by blast
qed

text \<open>
  C1, as the code has it: the value function that value iteration returns is the one
  the final sweep started from. The table \<open>Q_vals\<close> of the final sweep, from which the
  returned policy is built, is computed from the returned value function, and the final
  update \<open>np.max(Q_vals, axis=1)\<close> differs from the returned value by less than \<open>theta\<close>
  in every state; it is not what is returned.
\<close>

theorem value_iteration_returns_start_of_final_sweep:
  "value_iteration mdp gamma theta = Some (Inr (pol, V)) \<Longrightarrow>
     \<exists>row0 Q m. getitem mdp 0 = Inr row0
       \<and> q_sweep V mdp gamma (length mdp) (length row0) = Inr Q
       \<and> policy_constructor Q = Inr pol
       \<and> np_max_axis1 Q = Inr m
       \<and> length V = length mdp \<and> length m = length mdp
       \<and> (\<forall>s<length mdp. \<bar>V ! s - m ! s\<bar> < theta)"
proof -
  assume run: "value_iteration mdp gamma theta = Some (Inr (pol, V))"
  from run obtain row0 Q m d where r: "map_of mdp 0 = Some row0" "length V = length mdp"
    "q_sweep V mdp gamma (length mdp) (length row0) = Inr Q"
    "policy_constructor Q = Inr pol" "np_max_axis1 Q = Inr m"
    "max_abs_diff V m = Inr d" "d < theta"
    by (rule value_iteration_result)
  have lm: "length m = length mdp"
    using r(3,5) q_sweep_shape(1) [OF r(3)]
    by (auto simp: np_max_axis1_def dest: mapM_err_length)
  have "\<bar>V ! s - m ! s\<bar> < theta" if "s < length mdp" for s
    using max_abs_diff_nth [OF r(6), of s] that r(2,7) lm by simp
  with r lm show ?thesis by (auto simp: getitem_def)
qed

lemma self_loop_table:
  "q_sweep [x] self_loop_mdp gamma (Suc 0) (Suc 0) = Inr [[1 + gamma * x]]"
  by (simp add: q_sweep_def self_loop_mdp_def getitem_def np_index_def)

lemma self_loop_shape:
  "getitem self_loop_mdp 0 = Inr [(0, [(1, 0, 1, False)])]" "length self_loop_mdp = 1"
  by (simp_all add: self_loop_mdp_def getitem_def)

lemma self_loop_vi_loop:
  "vi_loop self_loop_mdp (1/2) (1/10) (Suc 0) (Suc 0) [0] = Some (Inr ([[31/16]], [15/8]))"
proof -
  have "vi_loop_n (Suc (Suc (Suc (Suc (Suc 0))))) self_loop_mdp (1/2) (1/10) (Suc 0) (Suc 0) [0]
        = Some (Inr ([[31/16]], [15/8]))"
    by (simp add: self_loop_table np_max_axis1_def max_abs_diff_def)
  then show ?thesis by (rule vi_loop_n_sound)
qed

lemma self_loop_value_iteration:
  "value_iteration self_loop_mdp (1/2) (1/10) = Some (Inr ([(0, 0)], [15/8]))"
proof -
  have "policy_constructor [[31/16]] = Inr [(0, 0)]"
    by (simp add: policy_constructor_def np_argmax_axis1_def)
  then show ?thesis
    by (simp add: value_iteration_def self_loop_shape self_loop_vi_loop)
qed

text \<open>
  C1, as the specification words it, fails on the one-state self-loop with reward 1,
  \<open>gamma = 1/2\<close> and \<open>theta = 1/10\<close>: the call returns \<open>[15/8]\<close>, the value function
  the final sweep started from, while the row maxima of the final table are \<open>[31/16]\<close>.
\<close>

theorem value_iteration_not_final_update:
  "value_iteration self_loop_mdp (1/2) (1/10) = Some (Inr ([(0, 0)], [15/8]))
   \<and> vi_loop self_loop_mdp (1/2) (1/10) 1 1 [0] = Some (Inr ([[31/16]], [15/8]))
   \<and> np_max_axis1 [[31/16]] = Inr [31/16]
   \<and> [15/8] \<noteq> [31/16 :: real]"
proof -
  from self_loop_value_iteration self_loop_vi_loop show ?thesis
    by (simp add: np_max_axis1_def)
qed

theorem value_iteration_returns_start_of_final_sweep_witness:
  "value_iteration self_loop_mdp (1/2) (1/10) = Some (Inr ([(0, 0)], [15/8]))
   \<and> (\<exists>row0 Q m. getitem self_loop_mdp 0 = Inr row0
       \<and> q_sweep [15/8] self_loop_mdp (1/2) (length self_loop_mdp) (length row0) = Inr Q
       \<and> policy_constructor Q = Inr [(0, 0)]
       \<and> np_max_axis1 Q = Inr m
       \<and> length [15/8 :: real] = length self_loop_mdp \<and> length m = length self_loop_mdp
       \<and> (\<forall>s<length self_loop_mdp. \<bar>[15/8] ! s - m ! s\<bar> < 1/10))"
proof -
  from value_iteration_returns_start_of_final_sweep [OF self_loop_value_iteration]
    self_loop_value_iteration
  show ?thesis by blast
qed

text \<open>
  C10: the pair that value iteration returns is consistent with itself. With \<open>Q\<close> the
  action values of the returned value function \<open>V\<close>, the returned policy maps every state
  to the lowest-indexed maximising action of \<open>Q[s]\<close>, and \<open>V[s]\<close> differs from that
  maximum \<open>Q[s][policy[s]]\<close> by less than \<open>theta\<close> in every state.
\<close>

theorem value_iteration_self_consistent:
  "value_iteration mdp gamma theta = Some (Inr (pol, V)) \<Longrightarrow>
     length V = length mdp \<and> greedy_policy gamma V mdp pol \<and> within_theta gamma theta mdp pol V"
proof -
  assume run: "value_iteration mdp gamma theta = Some (Inr (pol, V))"
  from run obtain row0 Q m d where r: "map_of mdp 0 = Some row0" "length V = length mdp"
    "q_sweep V mdp gamma (length mdp) (length row0) = Inr Q"
    "policy_constructor Q = Inr pol" "np_max_axis1 Q = Inr m"
    "max_abs_diff V m = Inr d" "d < theta"
    by (rule value_iteration_result)
  have lenQ: "length Q = length mdp" using r(3) by (rule q_sweep_shape)
  have lm: "length m = length mdp"
    using r(5) lenQ by (auto simp: np_max_axis1_def dest: mapM_err_length)
  have greedy: "greedy_policy gamma V mdp pol"
    using r(1,3,4) by (rule greedy_from_table)
  have "case map_of pol s of None \<Rightarrow> False
        | Some a \<Rightarrow> (case action_value gamma V mdp s a of None \<Rightarrow> False
        | Some q \<Rightarrow> \<bar>V ! s - q\<bar> < theta)" if s: "s < length mdp" for s
  proof -
    from policy_constructor_spec(2) [OF r(4), of s] s lenQ
    obtain a where a: "map_of pol s = Some a" "np_argmax (Q ! s) = Inr a" by auto
    have "a < length (Q ! s)" using np_argmax_spec [OF a(2)] by simp
    then have al: "a < length row0" using q_sweep_shape(2) [OF r(3) s] by simp
    have q: "action_value gamma V mdp s a = Some (Q ! s ! a)"
      using r(3) s al by (rule q_sweep_entry)
    have "np_max (Q ! s) = Inr (m ! s)"
      using mapM_err_nth [OF r(5) [unfolded np_max_axis1_def], of s] s lenQ by simp
    then have "m ! s = Q ! s ! a" using a(2) by (rule np_max_argmax)
    moreover have "\<bar>V ! s - m ! s\<bar> \<le> d"
      using max_abs_diff_nth [OF r(6), of s] s r(2) lm by simp
    ultimately have "\<bar>V ! s - Q ! s ! a\<bar> < theta" using r(7) by simp
    with a(1) q show ?thesis by simp
  qed
  with r(2) greedy show ?thesis by (simp add: within_theta_def)
qed

theorem value_iteration_self_consistent_witness:
  "value_iteration self_loop_mdp (1/2) (1/10) = Some (Inr ([(0, 0)], [15/8]))
   \<and> length [15/8 :: real] = length self_loop_mdp
   \<and> greedy_policy (1/2) [15/8] self_loop_mdp [(0, 0)]
   \<and> within_theta (1/2) (1/10) self_loop_mdp [(0, 0)] [15/8]"
  using value_iteration_self_consistent [OF self_loop_value_iteration]
    self_loop_value_iteration
  by blast

section \<open>Policy iteration\<close>

lemma pi_loop_n_sound:
  "pi_loop_n n mdp gamma theta S cur = Some r \<Longrightarrow> pi_loop mdp gamma theta S cur = Some r"
proof (induction n arbitrary: cur)
  case 0
  then show ?case by simp
next
  case (Suc n)
  show ?case
    using Suc.prems Suc.IH
    by (subst pi_loop.simps) (auto split: option.splits sum.splits if_splits)
qed

lemma pi_loop_induct
  [consumes 1, case_names eval_error improve_error rebuild_error stable again]:
  assumes run: "pi_loop mdp gamma theta S cur = Some y"
    and eval_error: "\<And>cur e. policy_evaluation cur mdp gamma theta = Some (Inl e) \<Longrightarrow>
        P cur (Inl e)"
    and improve_error: "\<And>cur V e. policy_evaluation cur mdp gamma theta = Some (Inr V) \<Longrightarrow>
        policy_improvement V mdp gamma = Inl e \<Longrightarrow> P cur (Inl e)"
    and rebuild_error: "\<And>cur V imp e. policy_evaluation cur mdp gamma theta = Some (Inr V) \<Longrightarrow>
        policy_improvement V mdp gamma = Inr imp \<Longrightarrow> rebuild imp S = Inl e \<Longrightarrow>
        P cur (Inl e)"
    and stable: "\<And>cur V imp d. policy_evaluation cur mdp gamma theta = Some (Inr V) \<Longrightarrow>
        policy_improvement V mdp gamma = Inr imp \<Longrightarrow> rebuild imp S = Inr d \<Longrightarrow>
        dict_eq cur d \<Longrightarrow> P cur (Inr (imp, V))"
    and again: "\<And>cur V imp d y. policy_evaluation cur mdp gamma theta = Some (Inr V) \<Longrightarrow>
        policy_improvement V mdp gamma = Inr imp \<Longrightarrow> rebuild imp S = Inr d \<Longrightarrow>
        \<not> dict_eq cur d \<Longrightarrow> pi_loop mdp gamma theta S imp = Some y \<Longrightarrow> P imp y \<Longrightarrow>
        P cur y"
  shows "P cur y"
proof -
  let ?R = "\<lambda>mdp' gamma' theta' S' cur y.
     mdp' = mdp \<and> gamma' = gamma \<and> theta' = theta \<and> S' = S \<longrightarrow>
     pi_loop mdp gamma theta S cur = Some y \<and> P cur y"
  have "?R mdp gamma theta S cur y"
  proof (rule pi_loop.raw_induct [where P = ?R, OF _ run])
    fix f mdp' gamma' theta' S' cur y
    assume IH: "\<And>mdp' gamma' theta' S' cur y.
        f mdp' gamma' theta' S' cur = Some y \<Longrightarrow> ?R mdp' gamma' theta' S' cur y"
      and body: "(case policy_evaluation cur mdp' gamma' theta' of None \<Rightarrow> None
        | Some r \<Rightarrow>
           (case r of Inl e \<Rightarrow> Some (Inl e)
            | Inr value_function \<Rightarrow>
               (case policy_improvement value_function mdp' gamma' of Inl e \<Rightarrow> Some (Inl e)
                | Inr improved_policy \<Rightarrow>
                   (case rebuild improved_policy S' of Inl e \<Rightarrow> Some (Inl e)
                    | Inr d \<Rightarrow>
                        if dict_eq cur d
                        then Some (Inr (improved_policy, value_function))
                        else f mdp' gamma' theta' S' improved_policy)))) = Some y"
    show "?R mdp' gamma' theta' S' cur y"
    proof (intro impI)
      assume eq: "mdp' = mdp \<and> gamma' = gamma \<and> theta' = theta \<and> S' = S"
      from body eq obtain r where r: "policy_evaluation cur mdp gamma theta = Some r"
        by (auto split: option.splits)
      show "pi_loop mdp gamma theta S cur = Some y \<and> P cur y"
      proof (cases r)
        case (Inl e)
        with body eq r eval_error [of cur e] show ?thesis
          by (subst pi_loop.simps) auto
      next
        case V: (Inr V)
        note ev = r [unfolded V]
        show ?thesis
        proof (cases "policy_improvement V mdp gamma")
          case (Inl e)
          with body eq ev improve_error [OF ev Inl] show ?thesis
            by (subst pi_loop.simps) auto
        next
          case imp: (Inr imp)
          show ?thesis
          proof (cases "rebuild imp S")
            case (Inl e)
            with body eq ev imp rebuild_error [OF ev imp Inl] show ?thesis
              by (subst pi_loop.simps) auto
          next
            case d: (Inr d)
            show ?thesis
            proof (cases "dict_eq cur d")
              case True
              with body eq ev imp d stable [OF ev imp d True] show ?thesis
                by (subst pi_loop.simps) auto
            next
              case False
              with body eq ev imp d have "f mdp gamma theta S imp = Some y" by simp
              from IH [OF this] have rec: "pi_loop mdp gamma theta S imp = Some y" "P imp y"
                by simp_all
              from again [OF ev imp d False rec] rec(1) ev imp d False show ?thesis
                by (subst pi_loop.simps) auto
            qed
          qed
        qed
      qed
    qed
  qed
  then show ?thesis by simp
qed

lemma enum_keys_nth:
  assumes "map fst xs = [0..<n]" and "i < n"
  shows "fst (xs ! i) = i" and "map_of xs i = Some (snd (xs ! i))"
proof -
  have len: "length xs = n" using assms(1) by (metis length_map length_upt minus_nat.diff_0)
  have "map fst xs ! i = [0..<n] ! i" using assms(1) by simp
  then show f: "fst (xs ! i) = i" using assms(2) len by simp
  have "distinct (map fst xs)" using assms(1) by simp
  moreover have "(i, snd (xs ! i)) \<in> set xs"
    using f len assms(2) by (metis nth_mem prod.collapse)
  ultimately show "map_of xs i = Some (snd (xs ! i))" by (simp only: map_of_eq_Some_iff)
qed

lemma enum_keys_eqI:
  assumes "map fst xs = [0..<n]" and "map fst ys = [0..<n]"
    and "\<And>i. i < n \<Longrightarrow> map_of xs i = map_of ys i"
  shows "xs = ys"
proof (rule nth_equalityI)
  have lx: "length xs = n" using assms(1) by (metis length_map length_upt minus_nat.diff_0)
  have ly: "length ys = n" using assms(2) by (metis length_map length_upt minus_nat.diff_0)
  show "length xs = length ys" using lx ly by simp
  fix i assume "i < length xs"
  then have i: "i < n" using lx by simp
  from enum_keys_nth [OF assms(1) i] enum_keys_nth [OF assms(2) i] assms(3) [OF i]
  show "xs ! i = ys ! i" by (metis option.inject prod.collapse)
qed

lemma dict_eq_enum_keys:
  assumes "map fst xs = [0..<n]" and "map fst ys = [0..<n]"
  shows "dict_eq xs ys \<longleftrightarrow> (\<forall>i<n. map_of xs i = map_of ys i)"
proof
  have lx: "length xs = n" using assms(1) by (metis length_map length_upt minus_nat.diff_0)
  have ly: "length ys = n" using assms(2) by (metis length_map length_upt minus_nat.diff_0)
  {
    assume eq: "dict_eq xs ys"
    show "\<forall>i<n. map_of xs i = map_of ys i"
    proof (intro allI impI)
      fix i assume i: "i < n"
      have "xs ! i \<in> set xs" using i lx by simp
      with eq have "map_of ys (fst (xs ! i)) = Some (snd (xs ! i))"
        by (auto simp: dict_eq_def list_all_iff split: prod.splits)
      with enum_keys_nth [OF assms(1) i] show "map_of xs i = map_of ys i" by simp
    qed
  }
  {
    assume "\<forall>i<n. map_of xs i = map_of ys i"
    then have "xs = ys" using enum_keys_eqI [OF assms] by blast
    moreover have "list_all (\<lambda>(k, v). map_of xs k = Some v) xs"
      using assms(1) by (auto simp: list_all_iff)
    ultimately show "dict_eq xs ys" by (simp add: dict_eq_def)
  }
qed

lemma rebuild_enum_keys:
  assumes "map fst imp = [0..<S]"
  shows "rebuild imp S = Inr imp"
proof -
  have len: "length imp = S" using assms by (metis length_map length_upt minus_nat.diff_0)
  have "map (\<lambda>state. case getitem imp state of Inl e \<Rightarrow> Inl e
                       | Inr a \<Rightarrow> Inr (state, a)) [0..<S] = map Inr imp"
  proof (rule nth_equalityI)
    show "length (map (\<lambda>state. case getitem imp state of Inl e \<Rightarrow> Inl e
                       | Inr a \<Rightarrow> Inr (state, a)) [0..<S]) = length (map Inr imp)"
      using len by simp
    fix i assume "i < length (map (\<lambda>state. case getitem imp state of Inl e \<Rightarrow> Inl e
                       | Inr a \<Rightarrow> Inr (state, a)) [0..<S])"
    then have i: "i < S" by simp
    from enum_keys_nth [OF assms i]
    show "map (\<lambda>state. case getitem imp state of Inl e \<Rightarrow> Inl e
                       | Inr a \<Rightarrow> Inr (state, a)) [0..<S] ! i = map Inr imp ! i"
      using i len by (simp add: getitem_def) (metis prod.collapse)
  qed
  then show ?thesis by (simp add: rebuild_def mapM_err_Inr_iff)
qed

lemma policy_improvement_result:
  assumes "policy_improvement V mdp gamma = Inr pol"
  obtains row0 Q where "map_of mdp 0 = Some row0"
    "q_sweep V mdp gamma (length mdp) (length row0) = Inr Q"
    "policy_constructor Q = Inr pol"
  using assms
  by (auto simp: policy_improvement_def getitem_def split: option.splits sum.splits)

lemma policy_improvement_keys:
  assumes "policy_improvement V mdp gamma = Inr pol"
  shows "map fst pol = [0..<length mdp]"
proof -
  from assms obtain row0 Q where
    "map_of mdp 0 = Some row0"
    and q: "q_sweep V mdp gamma (length mdp) (length row0) = Inr Q"
    and pc: "policy_constructor Q = Inr pol"
    by (rule policy_improvement_result)
  from policy_constructor_spec(1) [OF pc] q_sweep_shape(1) [OF q] show ?thesis by simp
qed

lemma pi_loop_result:
  assumes "pi_loop mdp gamma theta (length mdp) cur = Some y"
  shows "map fst cur = [0..<length cur] \<longrightarrow> (\<forall>pol V. y = Inr (pol, V) \<longrightarrow>
     policy_evaluation pol mdp gamma theta = Some (Inr V) \<and>
     policy_improvement V mdp gamma = Inr pol)"
  using assms
proof (induction rule: pi_loop_induct)
  case (stable cur V imp d)
  show ?case
  proof (intro impI allI)
    fix pol V'
    assume keys: "map fst cur = [0..<length cur]" and y: "Inr (imp, V) = Inr (pol, V')"
    have ki: "map fst imp = [0..<length mdp]" using stable(2) by (rule policy_improvement_keys)
    have d: "d = imp" using stable(3) rebuild_enum_keys [OF ki] by simp
    have "length cur = length imp" using stable(4) by (simp add: dict_eq_def d)
    also have "\<dots> = length mdp" using ki by (metis length_map length_upt minus_nat.diff_0)
    finally have kc: "map fst cur = [0..<length mdp]" using keys by simp
    have "cur = imp"
      using stable(4) dict_eq_enum_keys [OF kc ki] enum_keys_eqI [OF kc ki] by (simp add: d)
    with stable(1,2) y
    show "policy_evaluation pol mdp gamma theta = Some (Inr V') \<and>
          policy_improvement V' mdp gamma = Inr pol" by simp
  qed
next
  case (again cur V imp d y)
  have "map fst imp = [0..<length mdp]" using again(2) by (rule policy_improvement_keys)
  then have "map fst imp = [0..<length imp]"
    by (metis length_map length_upt minus_nat.diff_0)
  with again show ?case by simp
qed auto

text \<open>
  C4: policy iteration leaves its loop exactly in the pass in which the candidate policy
  produced by improvement assigns the same action as the current policy in every state.
  It returns that candidate with the value function obtained in that pass by evaluating
  the current policy; since the two policies agree, the returned value function is the
  evaluation of the returned policy, and the returned policy is the improvement of the
  returned value function.
\<close>

theorem policy_iteration_stops_when_stable:
  "(policy_iteration rnd mdp gamma theta = Some (Inr (pol, V)) \<longrightarrow>
      (\<exists>cur. policy_evaluation cur mdp gamma theta = Some (Inr V)
         \<and> policy_improvement V mdp gamma = Inr pol
         \<and> (\<forall>s<length mdp. map_of pol s = map_of cur s))
      \<and> policy_evaluation pol mdp gamma theta = Some (Inr V))
   \<and> (map fst cur = [0..<length mdp]
        \<and> policy_evaluation cur mdp gamma theta = Some (Inr V')
        \<and> policy_improvement V' mdp gamma = Inr cand \<longrightarrow>
      pi_loop_n (Suc 0) mdp gamma theta (length mdp) cur =
        (if \<forall>s<length mdp. map_of cand s = map_of cur s then Some (Inr (cand, V')) else None))"
proof (intro conjI impI)
  assume run: "policy_iteration rnd mdp gamma theta = Some (Inr (pol, V))"
  then have loop: "pi_loop mdp gamma theta (length mdp) (enumerate 0 rnd) = Some (Inr (pol, V))"
    by (auto simp: policy_iteration_def split: sum.splits if_splits)
  have "map fst (enumerate 0 rnd) = [0..<length (enumerate 0 rnd)]" by simp
  with pi_loop_result [OF loop]
  have r: "policy_evaluation pol mdp gamma theta = Some (Inr V)"
    "policy_improvement V mdp gamma = Inr pol" by blast+
  then show "\<exists>cur. policy_evaluation cur mdp gamma theta = Some (Inr V)
         \<and> policy_improvement V mdp gamma = Inr pol
         \<and> (\<forall>s<length mdp. map_of pol s = map_of cur s)" by blast
  show "policy_evaluation pol mdp gamma theta = Some (Inr V)" by (rule r)
next
  assume h: "map fst cur = [0..<length mdp]
        \<and> policy_evaluation cur mdp gamma theta = Some (Inr V')
        \<and> policy_improvement V' mdp gamma = Inr cand"
  then have kc: "map fst cur = [0..<length mdp]" by simp
  have ki: "map fst cand = [0..<length mdp]" using h policy_improvement_keys by blast
  have "dict_eq cur cand \<longleftrightarrow> (\<forall>s<length mdp. map_of cand s = map_of cur s)"
    using dict_eq_enum_keys [OF kc ki] by auto
  with h rebuild_enum_keys [OF ki]
  show "pi_loop_n (Suc 0) mdp gamma theta (length mdp) cur =
        (if \<forall>s<length mdp. map_of cand s = map_of cur s then Some (Inr (cand, V')) else None)"
    by simp
qed

lemma two_action_shape:
  "getitem two_action_mdp 0 = Inr [(0, [(1, 0, 0, True)]), (1, [(1, 0, 1, True)])]"
  "length two_action_mdp = Suc 0"
  by (simp_all add: two_action_mdp_def getitem_def)

lemma two_action_sweep:
  "pe_sweep [(0, 0)] two_action_mdp 1 [x] = Inr [0]"
  "pe_sweep [(0, 1)] two_action_mdp 1 [x] = Inr [1]"
  by (simp_all add: pe_sweep_def two_action_mdp_def getitem_def np_index_def)

lemma two_action_evaluation:
  assumes "0 < theta" and "theta \<le> 1"
  shows "policy_evaluation [(0, 0)] two_action_mdp 1 theta = Some (Inr [0])"
    and "policy_evaluation [(0, 1)] two_action_mdp 1 theta = Some (Inr [1])"
proof -
  have "pe_loop_n (Suc 0) [(0, 0)] two_action_mdp 1 theta [0] = Some (Inr [0])"
    using assms by (simp add: two_action_sweep max_abs_diff_def)
  from pe_loop_n_sound [OF this]
  show "policy_evaluation [(0, 0)] two_action_mdp 1 theta = Some (Inr [0])"
    by (simp add: policy_evaluation_def two_action_shape)
  have "pe_loop_n (Suc (Suc 0)) [(0, 1)] two_action_mdp 1 theta [0] = Some (Inr [1])"
    using assms by (simp add: two_action_sweep max_abs_diff_def del: One_nat_def)
  from pe_loop_n_sound [OF this]
  show "policy_evaluation [(0, 1)] two_action_mdp 1 theta = Some (Inr [1])"
    by (simp add: policy_evaluation_def two_action_shape)
qed

lemma two_action_improvement:
  "policy_improvement [x] two_action_mdp 1 = Inr [(0, 1)]"
  by (simp add: policy_improvement_def two_action_mdp_def getitem_def q_sweep_def
      upt_2 np_index_def policy_constructor_def np_argmax_axis1_def)

lemma two_action_rebuild: "rebuild [(0, 1)] (Suc 0) = Inr [(0, 1)]"
  by (simp add: rebuild_def getitem_def del: One_nat_def)

lemma two_action_policy_iteration:
  "policy_iteration [0] two_action_mdp 1 (1 / 10 ^ 10) = Some (Inr ([(0, 1)], [1]))"
proof -
  have "pi_loop_n (Suc (Suc 0)) two_action_mdp 1 (1 / 10 ^ 10) (Suc 0) [(0, 0)]
        = Some (Inr ([(0, 1)], [1]))"
    by (simp add: two_action_evaluation two_action_improvement two_action_rebuild dict_eq_def
        del: One_nat_def)
  from pi_loop_n_sound [OF this] show ?thesis
    by (simp add: policy_iteration_def two_action_shape)
qed

theorem policy_iteration_stops_when_stable_witness:
  "policy_iteration [0] two_action_mdp 1 (1 / 10 ^ 10) = Some (Inr ([(0, 1)], [1]))
   \<and> policy_evaluation [(0, 1)] two_action_mdp 1 (1 / 10 ^ 10) = Some (Inr [1])
   \<and> policy_improvement [1] two_action_mdp 1 = Inr [(0, 1)]
   \<and> map fst [(0, 0 :: nat)] = [0..<length two_action_mdp]
   \<and> policy_evaluation [(0, 0)] two_action_mdp 1 (1 / 10 ^ 10) = Some (Inr [0])
   \<and> policy_improvement [0] two_action_mdp 1 = Inr [(0, 1)]
   \<and> pi_loop_n (Suc 0) two_action_mdp 1 (1 / 10 ^ 10) (length two_action_mdp) [(0, 0)] = None"
proof -
  have k: "map fst [(0, 0 :: nat)] = [0..<length two_action_mdp]"
    by (simp add: two_action_shape)
  have d: "\<not> (\<forall>s<length two_action_mdp. map_of [(0, 1 :: nat)] s = map_of [(0, 0 :: nat)] s)"
    by (simp add: two_action_shape)
  from policy_iteration_stops_when_stable
    [of "[0]" two_action_mdp 1 "1 / 10 ^ 10" "[(0, 1)]" "[1]" "[(0, 0)]" "[0]" "[(0, 1)]"]
    two_action_policy_iteration two_action_evaluation two_action_improvement k d
  show ?thesis by simp
qed

section \<open>Policies are total and in range\<close>

lemma greedy_in_range:
  assumes keys: "map fst pol = [0..<length mdp]" and greedy: "greedy_policy gamma vs mdp pol"
  shows "policy_in_range mdp pol"
proof -
  from greedy obtain row0 where row0: "map_of mdp 0 = Some row0"
    and g: "\<And>s. s < length mdp \<Longrightarrow> (case map_of pol s of None \<Rightarrow> False
             | Some a \<Rightarrow> lowest_argmax (action_value gamma vs mdp s) (length row0) a)"
    by (auto simp: greedy_policy_def split: option.splits)
  have len: "length pol = length mdp"
    using keys by (metis length_map length_upt minus_nat.diff_0)
  have "a < length row0" if "(s, a) \<in> set pol" for s a
  proof -
    from that obtain i where i: "i < length mdp" "pol ! i = (s, a)"
      using len by (auto simp: in_set_conv_nth)
    from enum_keys_nth [OF keys i(1)] i(2) have "s = i" "map_of pol i = Some a" by simp_all
    with g [OF i(1)] show ?thesis by (simp add: lowest_argmax_def)
  qed
  then have "list_all (\<lambda>(s, a). a < length row0) pol" by (auto simp: list_all_iff)
  with keys row0 show ?thesis by (simp add: policy_in_range_def)
qed

lemma policy_improvement_in_range:
  assumes "policy_improvement V mdp gamma = Inr pol"
  shows "policy_in_range mdp pol"
proof -
  from assms obtain row0 Q where r: "map_of mdp 0 = Some row0"
    "q_sweep V mdp gamma (length mdp) (length row0) = Inr Q"
    "policy_constructor Q = Inr pol"
    by (rule policy_improvement_result)
  from policy_improvement_keys [OF assms] greedy_from_table [OF r] show ?thesis
    by (rule greedy_in_range)
qed

text \<open>
  C9: every policy the notebook produces is a total in-range mapping. Its keys are
  exactly the states \<open>0..len(mdp)-1\<close> and every action is below \<open>len(mdp[0])\<close>: for the
  result of policy improvement, for the random initial policy of policy iteration (built
  from what \<open>np.random.randint\<close> returns), for the result of policy iteration and for the
  result of value iteration.
\<close>

theorem policies_total_in_range:
  "(policy_improvement vs mdp gamma = Inr pol1 \<longrightarrow> policy_in_range mdp pol1)
   \<and> (getitem mdp 0 = Inr row0 \<and> randint_result (length row0) (length mdp) rnd \<longrightarrow>
        policy_in_range mdp (enumerate 0 rnd))
   \<and> (policy_iteration rnd' mdp gamma theta = Some (Inr (pol2, V2)) \<longrightarrow>
        policy_in_range mdp pol2)
   \<and> (value_iteration mdp gamma theta = Some (Inr (pol3, V3)) \<longrightarrow> policy_in_range mdp pol3)"
proof (intro conjI impI)
  assume "policy_improvement vs mdp gamma = Inr pol1"
  then show "policy_in_range mdp pol1" by (rule policy_improvement_in_range)
next
  assume h: "getitem mdp 0 = Inr row0 \<and> randint_result (length row0) (length mdp) rnd"
  then have row0: "map_of mdp 0 = Some row0"
    by (auto simp: getitem_def split: option.splits)
  from h have len: "length rnd = length mdp" and rng: "\<forall>a\<in>set rnd. a < length row0"
    by (auto simp: randint_result_def list_all_iff)
  have "list_all (\<lambda>(s, a). a < length row0) (enumerate 0 rnd)"
    using rng by (auto simp: list_all_iff in_set_enumerate_eq)
  with row0 len show "policy_in_range mdp (enumerate 0 rnd)"
    by (simp add: policy_in_range_def)
next
  assume run: "policy_iteration rnd' mdp gamma theta = Some (Inr (pol2, V2))"
  then have loop: "pi_loop mdp gamma theta (length mdp) (enumerate 0 rnd') = Some (Inr (pol2, V2))"
    by (auto simp: policy_iteration_def split: sum.splits if_splits)
  have "map fst (enumerate 0 rnd') = [0..<length (enumerate 0 rnd')]" by simp
  with pi_loop_result [OF loop] have "policy_improvement V2 mdp gamma = Inr pol2" by blast
  then show "policy_in_range mdp pol2" by (rule policy_improvement_in_range)
next
  assume run: "value_iteration mdp gamma theta = Some (Inr (pol3, V3))"
  from run obtain row0 Q m d where r: "map_of mdp 0 = Some row0" "length V3 = length mdp"
    "q_sweep V3 mdp gamma (length mdp) (length row0) = Inr Q"
    "policy_constructor Q = Inr pol3" "np_max_axis1 Q = Inr m"
    "max_abs_diff V3 m = Inr d" "d < theta"
    by (rule value_iteration_result)
  have "map fst pol3 = [0..<length mdp]"
    using policy_constructor_spec(1) [OF r(4)] q_sweep_shape(1) [OF r(3)] by simp
  moreover have "greedy_policy gamma V3 mdp pol3" using r(1,3,4) by (rule greedy_from_table)
  ultimately show "policy_in_range mdp pol3" by (rule greedy_in_range)
qed

lemma two_action_value_iteration:
  "value_iteration two_action_mdp 1 (1 / 10 ^ 10) = Some (Inr ([(0, 1)], [1]))"
proof -
  have q: "\<And>x. q_sweep [x] two_action_mdp 1 (Suc 0) (Suc (Suc 0)) = Inr [[0, 1]]"
    by (simp add: q_sweep_def two_action_mdp_def getitem_def np_index_def upt_2 upt_rec
        del: One_nat_def)
  have "vi_loop_n (Suc (Suc 0)) two_action_mdp 1 (1 / 10 ^ 10) (Suc 0) (Suc (Suc 0)) [0]
        = Some (Inr ([[0, 1]], [1]))"
    by (simp add: q np_max_axis1_def max_abs_diff_def del: One_nat_def)
  from vi_loop_n_sound [OF this]
  have "vi_loop two_action_mdp 1 (1 / 10 ^ 10) (Suc 0) (Suc (Suc 0)) [0]
        = Some (Inr ([[0, 1]], [1]))" .
  moreover have "policy_constructor [[0, 1]] = Inr [(0, 1)]"
    by (simp add: policy_constructor_def np_argmax_axis1_def del: One_nat_def)
  ultimately show ?thesis
    by (simp add: value_iteration_def two_action_shape del: One_nat_def)
qed

theorem policies_total_in_range_witness:
  "policy_improvement [0] two_action_mdp 1 = Inr [(0, 1)]
   \<and> policy_in_range two_action_mdp [(0, 1)]
   \<and> getitem two_action_mdp 0 = Inr [(0, [(1, 0, 0, True)]), (1, [(1, 0, 1, True)])]
   \<and> randint_result (length [(0 :: nat, [(1 :: real, 0 :: int, 0 :: real, True)]),
                             (1, [(1, 0, 1, True)])]) (length two_action_mdp) [0]
   \<and> policy_in_range two_action_mdp (enumerate 0 [0])
   \<and> policy_iteration [0] two_action_mdp 1 (1 / 10 ^ 10) = Some (Inr ([(0, 1)], [1]))
   \<and> value_iteration two_action_mdp 1 (1 / 10 ^ 10) = Some (Inr ([(0, 1)], [1]))"
proof -
  have r: "randint_result (length [(0 :: nat, [(1 :: real, 0 :: int, 0 :: real, True)]),
                             (1, [(1, 0, 1, True)])]) (length two_action_mdp) [0]"
    by (simp add: randint_result_def two_action_shape)
  from policies_total_in_range
    [of "[0]" two_action_mdp 1 "[(0, 1)]" "[(0, [(1, 0, 0, True)]), (1, [(1, 0, 1, True)])]"
        "[0]" "[0]" "1 / 10 ^ 10" "[(0, 1)]" "[1]" "[(0, 1)]" "[1]"]
    two_action_improvement [of 0] two_action_shape(1) r two_action_policy_iteration
    two_action_value_iteration
  show ?thesis by blast
qed

section \<open>What policy evaluation has tested when it returns\<close>

lemma pe_sweep_length: "pe_sweep pol mdp gamma vs = Inr cur \<Longrightarrow> length cur = length mdp"
  by (auto simp: pe_sweep_def dest: mapM_err_length)

lemma pe_sweep_entry:
  assumes "pe_sweep pol mdp gamma vs = Inr cur" and "s < length mdp"
  obtains a outcomes where "map_of pol s = Some a" "outcomes_at mdp s a = Some outcomes"
    "outcomes_ok (length vs) outcomes" "cur ! s = expected_return gamma vs outcomes"
proof -
  from mapM_err_upt_nth [OF assms(1) [unfolded pe_sweep_def] assms(2)]
  have "\<exists>a outcomes. map_of pol s = Some a \<and> outcomes_at mdp s a = Some outcomes \<and>
      outcomes_ok (length vs) outcomes \<and> cur ! s = expected_return gamma vs outcomes"
    by (auto simp: getitem_def outcomes_at_def accumulate_eq
        split: option.splits sum.splits if_splits)
  with that show ?thesis by blast
qed

lemma pe_sweep_total:
  assumes "\<And>s. s < length mdp \<Longrightarrow> \<exists>a outcomes. map_of pol s = Some a \<and>
      outcomes_at mdp s a = Some outcomes \<and> outcomes_ok (length vs) outcomes"
  shows "\<exists>cur. pe_sweep pol mdp gamma vs = Inr cur"
  unfolding pe_sweep_def
proof (rule mapM_err_total)
  fix s assume "s \<in> set [0..<length mdp]"
  then have "s < length mdp" by simp
  from assms [OF this] obtain a outcomes where "map_of pol s = Some a"
    "outcomes_at mdp s a = Some outcomes" "outcomes_ok (length vs) outcomes" by blast
  then show "\<exists>y. (case getitem mdp s of Inl e \<Rightarrow> Inl e
        | Inr row \<Rightarrow> (case getitem pol s of Inl e \<Rightarrow> Inl e
        | Inr a \<Rightarrow> (case getitem row a of Inl e \<Rightarrow> Inl e
        | Inr outcomes \<Rightarrow> accumulate gamma vs 0 outcomes))) = Inr y"
    by (auto simp: getitem_def outcomes_at_def accumulate_eq split: option.splits)
qed

lemma pe_loop_result:
  assumes "pe_loop pol mdp gamma theta vs = Some y"
  shows "length vs = length mdp \<longrightarrow> (\<forall>V. y = Inr V \<longrightarrow>
     (\<exists>prev d. length prev = length mdp \<and> pe_sweep pol mdp gamma prev = Inr V \<and>
        max_abs_diff prev V = Inr d \<and> d < theta))"
  using assms
proof (induction rule: pe_loop_induct)
  case (again vs cur d y)
  from again(1) have "length cur = length mdp" by (rule pe_sweep_length)
  with again show ?case by simp
qed auto

lemma expected_return_Cons:
  "expected_return gamma vs ((p, s', r, d) # outcomes) =
     p * (r + gamma * (vs ! wrap_index (length vs) s') * (if d then 0 else 1))
     + expected_return gamma vs outcomes"
  by (simp add: expected_return_def)

lemma expected_return_diff:
  assumes len: "length us = n" "length vs = n"
    and close: "\<And>i. i < n \<Longrightarrow> \<bar>us ! i - vs ! i\<bar> \<le> d"
    and gamma: "0 \<le> gamma"
  shows "outcomes_ok n outcomes \<Longrightarrow> \<forall>outcome\<in>set outcomes. 0 \<le> fst outcome \<Longrightarrow>
     \<bar>expected_return gamma us outcomes - expected_return gamma vs outcomes\<bar>
       \<le> gamma * d * sum_list (map fst outcomes)"
proof (induction outcomes)
  case Nil
  then show ?case by (simp add: expected_return_def)
next
  case (Cons o1 outcomes)
  obtain p s' r t where o1: "o1 = (p, s', r, t)" by (cases o1) auto
  from Cons.prems o1 have ok: "index_ok n s'" and p: "0 \<le> p"
    and rest: "outcomes_ok n outcomes" "\<forall>outcome\<in>set outcomes. 0 \<le> fst outcome"
    by (simp_all add: outcomes_ok_def)
  let ?j = "wrap_index n s'"
  have j: "?j < n" using ok by (rule wrap_index_less)
  let ?nd = "if t then 0 else 1 :: real"
  have IH: "\<bar>expected_return gamma us outcomes - expected_return gamma vs outcomes\<bar>
       \<le> gamma * d * sum_list (map fst outcomes)"
    using rest by (rule Cons.IH)
  have "\<bar>us ! ?j - vs ! ?j\<bar> * ?nd \<le> d"
    using close [OF j] by (auto intro: order_trans [OF _ close [OF j]])
  then have "p * gamma * (\<bar>us ! ?j - vs ! ?j\<bar> * ?nd) \<le> p * gamma * d"
    using p gamma by (intro mult_left_mono) simp_all
  moreover have "\<bar>p * (gamma * (us ! ?j) * ?nd) - p * (gamma * (vs ! ?j) * ?nd)\<bar>
      = p * gamma * (\<bar>us ! ?j - vs ! ?j\<bar> * ?nd)"
  proof -
    have "p * (gamma * (us ! ?j) * ?nd) - p * (gamma * (vs ! ?j) * ?nd)
        = p * (gamma * ((us ! ?j - vs ! ?j) * ?nd))" by (simp add: algebra_simps)
    then show ?thesis using p gamma by (simp add: abs_mult)
  qed
  ultimately have head: "\<bar>p * (gamma * (us ! ?j) * ?nd) - p * (gamma * (vs ! ?j) * ?nd)\<bar>
      \<le> p * gamma * d" by simp
  have "expected_return gamma us (o1 # outcomes) - expected_return gamma vs (o1 # outcomes)
     = (p * (gamma * (us ! ?j) * ?nd) - p * (gamma * (vs ! ?j) * ?nd))
       + (expected_return gamma us outcomes - expected_return gamma vs outcomes)"
    by (simp add: o1 expected_return_Cons len algebra_simps)
  then have "\<bar>expected_return gamma us (o1 # outcomes) - expected_return gamma vs (o1 # outcomes)\<bar>
     \<le> p * gamma * d + gamma * d * sum_list (map fst outcomes)"
    using head IH by linarith
  then show ?case by (simp add: o1 algebra_simps)
qed

lemma mass_at_most_oneD:
  assumes "mass_at_most_one mdp" and "outcomes_at mdp s a = Some outcomes"
  shows "\<forall>outcome\<in>set outcomes. 0 \<le> fst outcome" and "sum_list (map fst outcomes) \<le> 1"
proof -
  from assms(2) obtain row where row: "map_of mdp s = Some row" "map_of row a = Some outcomes"
    by (auto simp: outcomes_at_def split: option.splits)
  then have "(s, row) \<in> set mdp" "(a, outcomes) \<in> set row" by (auto dest: map_of_SomeD)
  with assms(1) have "(\<forall>outcome\<in>set outcomes. 0 \<le> fst outcome)
         \<and> sum_list (map fst outcomes) \<le> 1"
    by (fastforce simp: mass_at_most_one_def list_all_iff)
  then show "\<forall>outcome\<in>set outcomes. 0 \<le> fst outcome" "sum_list (map fst outcomes) \<le> 1"
    by auto
qed

lemma probabilities_ok_mass: "probabilities_ok mdp \<Longrightarrow> mass_at_most_one mdp"
  by (fastforce simp: probabilities_ok_def mass_at_most_one_def list_all_iff)

text \<open>
  Over the real numbers, with no negative probability, at most the mass 1 in every
  list of outcomes and \<open>gamma\<close> in \<open>[0, 1]\<close>, a sweep brings two value functions no
  further apart than they were, so one more sweep over the returned value function
  changes every state by less than \<open>theta\<close>. This rests on exact sums and products and on
  the bound on the mass; the function itself tests neither.
\<close>

lemma one_more_sweep_exact:
  assumes "mass_at_most_one mdp" and "0 \<le> gamma" and "gamma \<le> 1"
    and "policy_evaluation pol mdp gamma theta = Some (Inr V)"
  shows "\<exists>V'. pe_sweep pol mdp gamma V = Inr V' \<and> length V = length mdp
           \<and> length V' = length mdp
           \<and> (\<forall>s<length mdp. \<bar>V' ! s - V ! s\<bar> < theta)
           \<and> within_theta gamma theta mdp pol V"
proof -
  from assms(4) have "pe_loop pol mdp gamma theta (replicate (length mdp) 0) = Some (Inr V)"
    by (simp add: policy_evaluation_def)
  from pe_loop_result [OF this] obtain prev d where prev: "length prev = length mdp"
    "pe_sweep pol mdp gamma prev = Inr V" "max_abs_diff prev V = Inr d" "d < theta"
    by auto
  have lenV: "length V = length mdp" using prev(2) by (rule pe_sweep_length)
  have close: "\<bar>V ! i - prev ! i\<bar> \<le> d" if "i < length mdp" for i
    using max_abs_diff_nth [OF prev(3), of i] that prev(1) lenV by (simp add: abs_minus_commute)
  have ne: "length mdp \<noteq> 0"
    using prev(1,3) lenV by (auto simp: max_abs_diff_def)
  then have d0: "0 \<le> d" using close [of 0] by simp
  have "\<exists>cur. pe_sweep pol mdp gamma V = Inr cur"
  proof (rule pe_sweep_total)
    fix s assume "s < length mdp"
    with prev(2) obtain a outcomes where "map_of pol s = Some a"
      "outcomes_at mdp s a = Some outcomes" "outcomes_ok (length prev) outcomes"
      by (rule pe_sweep_entry)
    then show "\<exists>a outcomes. map_of pol s = Some a \<and> outcomes_at mdp s a = Some outcomes \<and>
        outcomes_ok (length V) outcomes"
      using prev(1) lenV by auto
  qed
  then obtain V' where V': "pe_sweep pol mdp gamma V = Inr V'" by blast
  have step: "\<bar>V' ! s - V ! s\<bar> < theta
      \<and> (case map_of pol s of None \<Rightarrow> False
         | Some a \<Rightarrow> (case action_value gamma V mdp s a of None \<Rightarrow> False
         | Some q \<Rightarrow> \<bar>V ! s - q\<bar> < theta))" if s: "s < length mdp" for s
  proof -
    from prev(2) s obtain a outcomes where e1: "map_of pol s = Some a"
      "outcomes_at mdp s a = Some outcomes" "outcomes_ok (length prev) outcomes"
      "V ! s = expected_return gamma prev outcomes"
      by (rule pe_sweep_entry)
    from V' s obtain a' outcomes' where e2: "map_of pol s = Some a'"
      "outcomes_at mdp s a' = Some outcomes'" "outcomes_ok (length V) outcomes'"
      "V' ! s = expected_return gamma V outcomes'"
      by (rule pe_sweep_entry)
    from e1 e2 have same: "a' = a" "outcomes' = outcomes" by simp_all
    have ok: "outcomes_ok (length mdp) outcomes" using e1(3) prev(1) by simp
    have gd: "0 \<le> gamma * d" using assms(2) d0 by simp
    have "\<bar>expected_return gamma V outcomes - expected_return gamma prev outcomes\<bar>
        \<le> gamma * d * sum_list (map fst outcomes)"
      using lenV prev(1) close assms(2) ok mass_at_most_oneD(1) [OF assms(1) e1(2)]
      by (rule expected_return_diff)
    also have "\<dots> \<le> gamma * d * 1"
      using mass_at_most_oneD(2) [OF assms(1) e1(2)] gd by (rule mult_left_mono)
    also have "\<dots> \<le> d" using assms(2,3) d0 by (simp add: mult_left_le_one_le)
    finally have le: "\<bar>V' ! s - V ! s\<bar> \<le> d" using e1(4) e2(4) same by simp
    then have lt: "\<bar>V' ! s - V ! s\<bar> < theta" using prev(4) by simp
    have "action_value gamma V mdp s a = Some (V' ! s)"
      using e2 same by (simp add: action_value_def)
    with e1(1) lt show ?thesis by (simp add: abs_minus_commute)
  qed
  have "length V' = length mdp" using V' by (rule pe_sweep_length)
  with V' lenV step show ?thesis by (auto simp: within_theta_def)
qed








section \<open>The Slippery Bandit Walk\<close>

lemma length_5E:
  assumes "length v = 5"
  obtains v0 v1 v2 v3 v4 where "v = [v0, v1, v2, v3, v4]"
proof -
  from assms have "\<exists>v0 v1 v2 v3 v4. v = [v0, v1, v2, v3, v4]"
    by (auto simp: length_Suc_conv numeral_eq_Suc)
  with that show ?thesis by blast
qed

lemma sbw_length: "length slippery_bandit_walk = 5"
  by (simp add: slippery_bandit_walk_def)

lemma sbw_row0: "map_of slippery_bandit_walk 0 = Some [(0, [(1, 0, 0, True)]), (1, [(1, 0, 0, True)])]"
  by (simp add: slippery_bandit_walk_def)

lemma sbw_pe_sweep:
  assumes "a0 < 2" "a1 < 2" "a2 < 2" "a3 < 2" "a4 < 2" and "length v = 5"
  shows "pe_sweep [(0, a0), (1, a1), (2, a2), (3, a3), (4, a4)] slippery_bandit_walk 1 v
         = Inr (sbw_backup a1 a2 a3 v)"
proof -
  from assms(6) obtain v0 v1 v2 v3 v4 where v: "v = [v0, v1, v2, v3, v4]" by (rule length_5E)
  let ?pol = "[(0, a0), (1, a1), (2, a2), (3, a3), (4, a4)]"
  let ?f = "\<lambda>state.
        case getitem slippery_bandit_walk state of Inl e \<Rightarrow> Inl e
        | Inr row \<Rightarrow> (case getitem ?pol state of Inl e \<Rightarrow> Inl e
        | Inr a \<Rightarrow> (case getitem row a of Inl e \<Rightarrow> Inl e
        | Inr outcomes \<Rightarrow> accumulate 1 v 0 outcomes))"
  have f0: "?f 0 = Inr 0"
    using assms(1) by (auto simp: v slippery_bandit_walk_def getitem_def np_index_def
        less_2_cases_iff)
  have f1: "?f 1 = Inr (if a1 = 0 then 2/10 * v2 else 8/10 * v2)"
    using assms(2) by (auto simp: v slippery_bandit_walk_def getitem_def np_index_def
        less_2_cases_iff)
  have f2: "?f 2 = Inr (if a2 = 0 then 8/10 * v1 + 2/10 * v3 else 8/10 * v3 + 2/10 * v1)"
    using assms(3) by (auto simp: v slippery_bandit_walk_def getitem_def np_index_def
        less_2_cases_iff)
  have f3: "?f 3 = Inr (if a3 = 0 then 8/10 * v2 + 2/10 else 8/10 + 2/10 * v2)"
    using assms(4) by (auto simp: v slippery_bandit_walk_def getitem_def np_index_def
        less_2_cases_iff)
  have f4: "?f 4 = Inr 0"
    using assms(5) by (auto simp: v slippery_bandit_walk_def getitem_def np_index_def
        less_2_cases_iff)
  have "mapM_err ?f [0, 1, 2, 3, 4] = Inr (sbw_backup a1 a2 a3 v)"
    unfolding mapM_err.simps f0 f1 f2 f3 f4 by (simp add: sbw_backup_def v)
  then show ?thesis by (simp only: pe_sweep_def sbw_length upt_5)
qed

lemma sbw_backup_values: "sbw_values v \<Longrightarrow> sbw_values (sbw_backup a1 a2 a3 v)"
  by (auto simp: sbw_values_def sbw_backup_def)

lemma sbw_backup_nth:
  "sbw_backup a1 a2 a3 v ! 0 = 0"
  "sbw_backup a1 a2 a3 v ! 1 = (if a1 = 0 then 2/10 * v ! 2 else 8/10 * v ! 2)"
  "sbw_backup a1 a2 a3 v ! 2 =
     (if a2 = 0 then 8/10 * v ! 1 + 2/10 * v ! 3 else 8/10 * v ! 3 + 2/10 * v ! 1)"
  "sbw_backup a1 a2 a3 v ! 3 = (if a3 = 0 then 8/10 * v ! 2 + 2/10 else 8/10 + 2/10 * v ! 2)"
  "sbw_backup a1 a2 a3 v ! 4 = 0"
  "length (sbw_backup a1 a2 a3 v) = 5"
  by (simp_all add: sbw_backup_def)

lemma sbw_backup_contracts:
  "sbw_dist (sbw_backup a1 a2 a3 u) (sbw_backup a1 a2 a3 v) \<le> 9/10 * sbw_dist u v"
proof -
  let ?W = "sbw_dist u v"
  have w1: "\<bar>u ! 1 - v ! 1\<bar> \<le> ?W" and w2: "9/10 * \<bar>u ! 2 - v ! 2\<bar> \<le> ?W"
    and w3: "\<bar>u ! 3 - v ! 3\<bar> \<le> ?W"
    unfolding sbw_dist_def by (simp_all add: le_max_iff_disj del: times_divide_eq_right
        times_divide_eq_left)
  have c1: "\<bar>sbw_backup a1 a2 a3 u ! 1 - sbw_backup a1 a2 a3 v ! 1\<bar> \<le> 9/10 * ?W"
  proof (cases "a1 = 0")
    case True
    then show ?thesis using w2 unfolding sbw_backup_nth by (simp; argo)
  next
    case False
    then show ?thesis using w2 unfolding sbw_backup_nth by (simp; argo)
  qed
  have c2: "9/10 * \<bar>sbw_backup a1 a2 a3 u ! 2 - sbw_backup a1 a2 a3 v ! 2\<bar> \<le> 9/10 * ?W"
  proof (cases "a2 = 0")
    case True
    then show ?thesis using w1 w3 unfolding sbw_backup_nth by (simp; argo)
  next
    case False
    then show ?thesis using w1 w3 unfolding sbw_backup_nth by (simp; argo)
  qed
  have c3: "\<bar>sbw_backup a1 a2 a3 u ! 3 - sbw_backup a1 a2 a3 v ! 3\<bar> \<le> 9/10 * ?W"
  proof (cases "a3 = 0")
    case True
    then show ?thesis using w2 unfolding sbw_backup_nth by (simp; argo)
  next
    case False
    then show ?thesis using w2 unfolding sbw_backup_nth by (simp; argo)
  qed
  from c1 c2 c3 show ?thesis
    unfolding sbw_dist_def [of "sbw_backup a1 a2 a3 u"] by (intro max.boundedI)
qed

lemma sbw_max_abs_diff:
  assumes "sbw_values v"
  shows "max_abs_diff v (sbw_backup a1 a2 a3 v) =
     Inr (max 0 (max \<bar>v ! 1 - sbw_backup a1 a2 a3 v ! 1\<bar>
            (max \<bar>v ! 2 - sbw_backup a1 a2 a3 v ! 2\<bar> \<bar>v ! 3 - sbw_backup a1 a2 a3 v ! 3\<bar>)))"
proof -
  from assms have "length v = 5" by (simp add: sbw_values_def)
  then obtain v0 v1 v2 v3 v4 where v: "v = [v0, v1, v2, v3, v4]" by (rule length_5E)
  from assms have z: "v0 = 0" "v4 = 0" by (simp_all add: sbw_values_def v)
  obtain w1 w2 w3 where w: "sbw_backup a1 a2 a3 v = [0, w1, w2, w3, 0]"
    by (simp add: sbw_backup_def)
  show ?thesis
    unfolding w unfolding v z
    by (simp add: max_abs_diff_def max.assoc max.commute max.left_commute)
qed

lemma sbw_converged_iff:
  assumes "sbw_values v" and "0 < theta"
  shows "\<exists>d. max_abs_diff v (sbw_backup a1 a2 a3 v) = Inr d
           \<and> (d < theta \<longleftrightarrow> sbw_small a1 a2 a3 theta v)"
  using assms(2) by (simp add: sbw_max_abs_diff [OF assms(1)] sbw_small_def)

lemma sbw_dist_small:
  assumes "sbw_dist (sbw_backup a1 a2 a3 v) v \<le> 9/20 * theta" and "0 < theta"
  shows "sbw_small a1 a2 a3 theta v"
proof -
  let ?w = "sbw_backup a1 a2 a3 v"
  have "\<bar>?w ! 1 - v ! 1\<bar> \<le> 9/20 * theta" "9/10 * \<bar>?w ! 2 - v ! 2\<bar> \<le> 9/20 * theta"
    "\<bar>?w ! 3 - v ! 3\<bar> \<le> 9/20 * theta"
    using assms(1) unfolding sbw_dist_def by (simp_all del: times_divide_eq_right
        times_divide_eq_left)
  with assms(2) show ?thesis unfolding sbw_small_def by argo
qed

lemma sbw_pe_loop_terminates:
  assumes acts: "a0 < 2" "a1 < 2" "a2 < 2" "a3 < 2" "a4 < 2" and theta: "0 < theta"
  shows "sbw_values v \<Longrightarrow>
     sbw_dist (sbw_backup a1 a2 a3 v) v \<le> 9/20 * theta * (10/9) ^ j \<Longrightarrow>
     \<exists>u. sbw_values u \<and> sbw_small a1 a2 a3 theta u \<and>
         pe_loop [(0, a0), (1, a1), (2, a2), (3, a3), (4, a4)] slippery_bandit_walk 1 theta v
           = Some (Inr (sbw_backup a1 a2 a3 u))"
proof (induction j arbitrary: v)
  case 0
  let ?pol = "[(0, a0), (1, a1), (2, a2), (3, a3), (4, a4)]"
  from 0 have small: "sbw_small a1 a2 a3 theta v"
    using sbw_dist_small [of a1 a2 a3 v theta] theta by simp
  have len: "length v = 5" using 0(1) by (simp add: sbw_values_def)
  from sbw_converged_iff [OF 0(1) theta, of a1 a2 a3] small
  obtain d where "max_abs_diff v (sbw_backup a1 a2 a3 v) = Inr d" "d < theta" by blast
  then have "pe_loop ?pol slippery_bandit_walk 1 theta v = Some (Inr (sbw_backup a1 a2 a3 v))"
    by (subst pe_loop.simps) (simp add: sbw_pe_sweep [OF acts len] del: One_nat_def)
  with 0(1) small show ?case by blast
next
  case (Suc j)
  let ?pol = "[(0, a0), (1, a1), (2, a2), (3, a3), (4, a4)]"
  have len: "length v = 5" using Suc.prems(1) by (simp add: sbw_values_def)
  from sbw_converged_iff [OF Suc.prems(1) theta, of a1 a2 a3]
  obtain d where d: "max_abs_diff v (sbw_backup a1 a2 a3 v) = Inr d"
    "d < theta \<longleftrightarrow> sbw_small a1 a2 a3 theta v" by blast
  show ?case
  proof (cases "d < theta")
    case True
    then have "pe_loop ?pol slippery_bandit_walk 1 theta v = Some (Inr (sbw_backup a1 a2 a3 v))"
      using d(1) by (subst pe_loop.simps) (simp add: sbw_pe_sweep [OF acts len] del: One_nat_def)
    with Suc.prems(1) True d(2) show ?thesis by blast
  next
    case False
    let ?w = "sbw_backup a1 a2 a3 v"
    have vals: "sbw_values ?w" using Suc.prems(1) by (rule sbw_backup_values)
    have "sbw_dist (sbw_backup a1 a2 a3 ?w) ?w \<le> 9/10 * sbw_dist ?w v"
      by (rule sbw_backup_contracts)
    also have "\<dots> \<le> 9/10 * (9/20 * theta * (10/9) ^ Suc j)"
      using Suc.prems(2) by simp
    also have "\<dots> = 9/20 * theta * (10/9) ^ j" by simp
    finally have "\<exists>u. sbw_values u \<and> sbw_small a1 a2 a3 theta u \<and>
         pe_loop ?pol slippery_bandit_walk 1 theta ?w = Some (Inr (sbw_backup a1 a2 a3 u))"
      using vals by (intro Suc.IH)
    moreover have "pe_loop ?pol slippery_bandit_walk 1 theta v
        = pe_loop ?pol slippery_bandit_walk 1 theta ?w"
      using d(1) False by (subst pe_loop.simps) (simp add: sbw_pe_sweep [OF acts len] del: One_nat_def)
    ultimately show ?thesis by simp
  qed
qed

lemma sbw_zeros: "sbw_values (replicate 5 0)"
  by (simp add: sbw_values_def numeral_eq_Suc nth_Cons')

lemma sbw_first_dist:
  "sbw_dist (sbw_backup a1 a2 a3 (replicate 5 0)) (replicate 5 0)
     \<le> 9/20 * (1 / 10 ^ 10) * (10/9) ^ 230"
proof -
  have "sbw_dist (sbw_backup a1 a2 a3 (replicate 5 0)) (replicate 5 0) \<le> 8/10"
    by (simp add: sbw_dist_def sbw_backup_nth del: One_nat_def)
  also have "(8/10 :: real) \<le> 9/20 * (1 / 10 ^ 10) * (10/9) ^ 230"
  proof -
    have "(11::real) \<le> (10/9) ^ 23" by (simp add: power_divide)
    then have "(11::real) ^ 10 \<le> ((10/9) ^ 23) ^ 10" by (intro power_mono) simp_all
    also have "\<dots> = (10/9 :: real) ^ 230" by (simp add: power_mult [symmetric])
    finally have "(11::real) ^ 10 \<le> (10/9) ^ 230" .
    moreover have "(8/10 :: real) \<le> 9/20 * (1 / 10 ^ 10) * 11 ^ 10" by simp
    ultimately show ?thesis by simp
  qed
  finally show ?thesis .
qed

lemma sbw_policy_evaluation:
  assumes "a0 < 2" "a1 < 2" "a2 < 2" "a3 < 2" "a4 < 2" and th: "theta = 1 / 10 ^ 10"
  shows "\<exists>u. sbw_values u \<and> sbw_small a1 a2 a3 theta u \<and>
     policy_evaluation [(0, a0), (1, a1), (2, a2), (3, a3), (4, a4)] slippery_bandit_walk 1
       theta = Some (Inr (sbw_backup a1 a2 a3 u))"
proof -
  have pos: "0 < theta" by (simp add: th)
  have "sbw_dist (sbw_backup a1 a2 a3 (replicate 5 0)) (replicate 5 0)
     \<le> 9/20 * theta * (10/9) ^ 230"
    using sbw_first_dist [of a1 a2 a3] by (simp only: th)
  from sbw_pe_loop_terminates [OF assms(1-5) pos sbw_zeros this]
  show ?thesis by (simp only: policy_evaluation_def sbw_length)
qed

lemma sbw_q_sweep:
  assumes "length v = 5"
  shows "q_sweep v slippery_bandit_walk 1 5 2 = Inr (sbw_table v)"
proof -
  from assms obtain v0 v1 v2 v3 v4 where v: "v = [v0, v1, v2, v3, v4]" by (rule length_5E)
  show ?thesis
    by (simp add: v q_sweep_def slippery_bandit_walk_def getitem_def upt_5 upt_2 np_index_def
        sbw_table_def)
qed

lemma sbw_greedy_table:
  assumes "0 < v ! 2" "v ! 2 < 1" "v ! 1 < v ! 3"
  shows "policy_constructor (sbw_table v) = Inr sbw_optimal_policy"
  using assms
  by (simp add: policy_constructor_def np_argmax_axis1_def sbw_optimal_policy_def sbw_table_def)

lemma sbw_policy_improvement:
  assumes "length v = 5" "0 < v ! 2" "v ! 2 < 1" "v ! 1 < v ! 3"
  shows "policy_improvement v slippery_bandit_walk 1 = Inr sbw_optimal_policy"
proof -
  have "getitem slippery_bandit_walk 0
      = Inr [(0, [(1, 0, 0, True)]), (1, [(1, 0, 0, True)])]"
    by (simp add: getitem_def sbw_row0)
  moreover have "length [(0 :: nat, [(1 :: real, 0 :: int, 0 :: real, True)]),
       (1, [(1, 0, 0, True)])] = 2" by simp
  ultimately show ?thesis
    by (simp only: policy_improvement_def sum.case sbw_length sbw_q_sweep [OF assms(1)]
        sbw_greedy_table [OF assms(2-4)])
qed

lemma sbw_evaluated_values:
  assumes "sbw_values u" "sbw_small a1 a2 a3 theta u" "theta \<le> 1/100"
  shows "0 < sbw_backup a1 a2 a3 u ! 2" "sbw_backup a1 a2 a3 u ! 2 < 1"
    "sbw_backup a1 a2 a3 u ! 1 < sbw_backup a1 a2 a3 u ! 3"
proof -
  from assms(1) have b: "0 \<le> u ! 1" "u ! 1 \<le> 1" "0 \<le> u ! 2" "u ! 2 \<le> 1" "0 \<le> u ! 3" "u ! 3 \<le> 1"
    by (simp_all add: sbw_values_def)
  from assms(2) have s: "\<bar>u ! 1 - sbw_backup a1 a2 a3 u ! 1\<bar> < theta"
    "\<bar>u ! 2 - sbw_backup a1 a2 a3 u ! 2\<bar> < theta"
    "\<bar>u ! 3 - sbw_backup a1 a2 a3 u ! 3\<bar> < theta"
    by (simp_all add: sbw_small_def)
  have w1: "sbw_backup a1 a2 a3 u ! 1 \<le> 8/10 * u ! 2"
    using b unfolding sbw_backup_nth by (simp; argo)
  have w3: "2/10 \<le> sbw_backup a1 a2 a3 u ! 3" "8/10 * u ! 2 + 2/10 \<le> sbw_backup a1 a2 a3 u ! 3"
    using b unfolding sbw_backup_nth by (simp; argo)+
  have w2: "2/10 * u ! 3 \<le> sbw_backup a1 a2 a3 u ! 2"
    "sbw_backup a1 a2 a3 u ! 2 \<le> 8/10 + 2/10 * u ! 1"
    using b unfolding sbw_backup_nth by (simp; argo)+
  show "0 < sbw_backup a1 a2 a3 u ! 2" using w2 w3 s assms(3) by argo
  show "sbw_backup a1 a2 a3 u ! 2 < 1" using w1 w2 s b assms(3) by argo
  show "sbw_backup a1 a2 a3 u ! 1 < sbw_backup a1 a2 a3 u ! 3" using w1 w3 by argo
qed

lemma sbw_optimal_accuracy:
  assumes "sbw_small 1 1 1 theta u" "theta \<le> 1 / 10 ^ 6"
  shows "approx_equal (sbw_backup 1 1 1 u) sbw_expected_values"
proof -
  let ?V = "sbw_backup 1 1 1 u"
  have V: "?V ! 0 = 0" "?V ! 1 = 8/10 * u ! 2" "?V ! 2 = 8/10 * u ! 3 + 2/10 * u ! 1"
    "?V ! 3 = 8/10 + 2/10 * u ! 2" "?V ! 4 = 0"
    by (simp_all add: sbw_backup_nth del: One_nat_def)
  from assms(1) have s: "\<bar>u ! 1 - 8/10 * u ! 2\<bar> < theta"
    "\<bar>u ! 2 - (8/10 * u ! 3 + 2/10 * u ! 1)\<bar> < theta"
    "\<bar>u ! 3 - (8/10 + 2/10 * u ! 2)\<bar> < theta"
    unfolding sbw_small_def V by simp_all
  have t: "theta \<le> 1 / 1000000" using assms(2) by simp
  have e2: "\<bar>u ! 2 - 80/85\<bar> < 3 * theta" using s by argo
  have e1: "\<bar>u ! 1 - 64/85\<bar> < 4 * theta" using s e2 by argo
  have e3: "\<bar>u ! 3 - 84/85\<bar> < 2 * theta" using s e2 by argo
  have a: "\<bar>?V ! 1 - 7529 / 10000\<bar> < 1 / 10000" unfolding V using e2 t by argo
  have b: "\<bar>?V ! 2 - 9412 / 10000\<bar> < 1 / 10000" unfolding V using e1 e3 t by argo
  have c: "\<bar>?V ! 3 - 9882 / 10000\<bar> < 1 / 10000" unfolding V using e2 t by argo
  have "\<bar>?V ! i - sbw_expected_values ! i\<bar> < 1 / 10 ^ 4" if "i < 5" for i
  proof -
    from that have "i = 0 \<or> i = 1 \<or> i = 2 \<or> i = 3 \<or> i = 4" by arith
    then show ?thesis
      using a b c V(1,5) by (auto simp: sbw_expected_values_def simp del: One_nat_def)
  qed
  then show ?thesis
    by (simp add: approx_equal_def sbw_expected_values_def sbw_backup_nth)
qed

lemma sbw_stable_pass:
  assumes th: "theta = 1 / 10 ^ 10"
  shows "\<exists>V. pi_loop slippery_bandit_walk 1 theta 5 sbw_optimal_policy
          = Some (Inr (sbw_optimal_policy, V))
       \<and> approx_equal V sbw_expected_values"
proof -
  have "\<exists>u. sbw_values u \<and> sbw_small 1 1 1 theta u \<and>
     policy_evaluation [(0, 0), (1, 1), (2, 1), (3, 1), (4, 0)] slippery_bandit_walk 1
       theta = Some (Inr (sbw_backup 1 1 1 u))"
    by (rule sbw_policy_evaluation) (simp_all add: th)
  then obtain u where u: "sbw_values u" "sbw_small 1 1 1 theta u"
    and ev: "policy_evaluation sbw_optimal_policy slippery_bandit_walk 1 theta
       = Some (Inr (sbw_backup 1 1 1 u))"
    unfolding sbw_optimal_policy_def by blast
  have small: "theta \<le> 1/100" "theta \<le> 1 / 10 ^ 6" by (simp_all add: th)
  let ?V = "sbw_backup 1 1 1 u"
  have imp: "policy_improvement ?V slippery_bandit_walk 1 = Inr sbw_optimal_policy"
    using sbw_evaluated_values [OF u small(1)]
    by (intro sbw_policy_improvement) (simp_all add: sbw_backup_nth)
  have keys: "map fst sbw_optimal_policy = [0..<5]"
    by (simp add: sbw_optimal_policy_def upt_5)
  have rb: "rebuild sbw_optimal_policy 5 = Inr sbw_optimal_policy"
    using keys by (rule rebuild_enum_keys)
  have eq: "dict_eq sbw_optimal_policy sbw_optimal_policy"
    using dict_eq_enum_keys [OF keys keys] by simp
  have "pi_loop slippery_bandit_walk 1 theta 5 sbw_optimal_policy
          = Some (Inr (sbw_optimal_policy, ?V))"
    by (subst pi_loop.simps) (simp add: ev imp rb eq del: One_nat_def)
  moreover have "approx_equal ?V sbw_expected_values"
    using u(2) small(2) by (rule sbw_optimal_accuracy)
  ultimately show ?thesis by blast
qed

lemma sbw_policy_iteration:
  assumes "randint_result 2 5 rnd" and th: "theta = 1 / 10 ^ 10"
  shows "\<exists>V. policy_iteration rnd slippery_bandit_walk 1 theta
                = Some (Inr (sbw_optimal_policy, V))
             \<and> approx_equal V sbw_expected_values"
proof -
  from assms have "length rnd = 5" and lt: "\<forall>a\<in>set rnd. a < 2"
    by (simp_all add: randint_result_def list_all_iff)
  then obtain a0 a1 a2 a3 a4 where rnd: "rnd = [a0, a1, a2, a3, a4]" by (auto elim: length_5E)
  from lt have acts: "a0 < 2" "a1 < 2" "a2 < 2" "a3 < 2" "a4 < 2" by (simp_all add: rnd)
  let ?cur = "[(0, a0), (1, a1), (2, a2), (3, a3), (4, a4)]"
  have cur: "enumerate 0 rnd = ?cur" by (simp add: rnd)
  have start: "policy_iteration rnd slippery_bandit_walk 1 theta
      = pi_loop slippery_bandit_walk 1 theta 5 ?cur"
    by (simp add: policy_iteration_def getitem_def sbw_row0 sbw_length cur del: One_nat_def)
  from sbw_policy_evaluation [OF acts th] obtain u where u: "sbw_values u"
    "sbw_small a1 a2 a3 theta u"
    and ev: "policy_evaluation ?cur slippery_bandit_walk 1 theta
       = Some (Inr (sbw_backup a1 a2 a3 u))" by blast
  let ?V = "sbw_backup a1 a2 a3 u"
  have imp: "policy_improvement ?V slippery_bandit_walk 1 = Inr sbw_optimal_policy"
    using sbw_evaluated_values [OF u] th
    by (intro sbw_policy_improvement) (simp_all add: sbw_backup_nth)
  have keys: "map fst sbw_optimal_policy = [0..<5]"
    by (simp add: sbw_optimal_policy_def upt_5)
  have ckeys: "map fst ?cur = [0..<5]" by (simp add: upt_5)
  have rb: "rebuild sbw_optimal_policy 5 = Inr sbw_optimal_policy"
    using keys by (rule rebuild_enum_keys)
  have "pi_loop slippery_bandit_walk 1 theta 5 ?cur
      = pi_loop slippery_bandit_walk 1 theta 5 sbw_optimal_policy"
  proof (cases "dict_eq ?cur sbw_optimal_policy")
    case True
    then have "?cur = sbw_optimal_policy"
      using dict_eq_enum_keys [OF ckeys keys] enum_keys_eqI [OF ckeys keys] by blast
    then show ?thesis by simp
  next
    case False
    then show ?thesis
      by (subst pi_loop.simps) (simp add: ev imp rb del: One_nat_def)
  qed
  with start sbw_stable_pass [OF th] show ?thesis by simp
qed

lemma sbw_row_max:
  assumes "sbw_values v" "v ! 1 \<le> v ! 3"
  shows "np_max_axis1 (sbw_table v) = Inr (sbw_backup 1 1 1 v)"
proof -
  from assms(1) have b: "0 \<le> v ! 2" "v ! 2 \<le> 1" by (simp_all add: sbw_values_def)
  have "max (8/10 * v ! 2) (2/10 * v ! 2) = 8/10 * v ! 2" using b by (simp add: max_def)
  moreover have "max (8/10 * v ! 3 + 2/10 * v ! 1) (8/10 * v ! 1 + 2/10 * v ! 3)
      = 8/10 * v ! 3 + 2/10 * v ! 1" using assms(2) by (simp add: max_def)
  moreover have "max (8/10 + 2/10 * v ! 2) (8/10 * v ! 2 + 2/10) = 8/10 + 2/10 * v ! 2"
    using b by (simp add: max_def)
  ultimately show ?thesis
    by (simp add: np_max_axis1_def sbw_backup_def sbw_table_def del: One_nat_def)
qed

lemma sbw_backup_ordered: "sbw_values v \<Longrightarrow> sbw_backup 1 1 1 v ! 1 \<le> sbw_backup 1 1 1 v ! 3"
  by (simp add: sbw_backup_nth sbw_values_def del: One_nat_def)

lemma sbw_vi_loop_terminates:
  assumes theta: "0 < theta"
  shows "sbw_values v \<Longrightarrow> v ! 1 \<le> v ! 3 \<Longrightarrow>
     sbw_dist (sbw_backup 1 1 1 v) v \<le> 9/20 * theta * (10/9) ^ j \<Longrightarrow>
     \<exists>u Q. sbw_values u \<and> sbw_small 1 1 1 theta u \<and>
         q_sweep u slippery_bandit_walk 1 5 2 = Inr Q \<and>
         vi_loop slippery_bandit_walk 1 theta 5 2 v = Some (Inr (Q, u))"
proof (induction j arbitrary: v)
  case 0
  from 0 have small: "sbw_small 1 1 1 theta v"
    using sbw_dist_small [of 1 1 1 v theta] theta by simp
  have len: "length v = 5" using 0(1) by (simp add: sbw_values_def)
  from sbw_converged_iff [OF 0(1) theta, of 1 1 1] small
  obtain d where "max_abs_diff v (sbw_backup 1 1 1 v) = Inr d" "d < theta" by blast
  then have "\<exists>Q. q_sweep v slippery_bandit_walk 1 5 2 = Inr Q \<and>
      vi_loop slippery_bandit_walk 1 theta 5 2 v = Some (Inr (Q, v))"
    by (subst vi_loop.simps)
       (simp add: sbw_q_sweep [OF len] sbw_row_max [OF 0(1,2)] del: One_nat_def)
  with 0(1) small show ?case by blast
next
  case (Suc j)
  have len: "length v = 5" using Suc.prems(1) by (simp add: sbw_values_def)
  from sbw_converged_iff [OF Suc.prems(1) theta, of 1 1 1]
  obtain d where d: "max_abs_diff v (sbw_backup 1 1 1 v) = Inr d"
    "d < theta \<longleftrightarrow> sbw_small 1 1 1 theta v" by blast
  show ?case
  proof (cases "d < theta")
    case True
    then have "\<exists>Q. q_sweep v slippery_bandit_walk 1 5 2 = Inr Q \<and>
        vi_loop slippery_bandit_walk 1 theta 5 2 v = Some (Inr (Q, v))"
      using d(1) by (subst vi_loop.simps)
        (simp add: sbw_q_sweep [OF len] sbw_row_max [OF Suc.prems(1,2)] del: One_nat_def)
    with Suc.prems(1) True d(2) show ?thesis by blast
  next
    case False
    let ?w = "sbw_backup 1 1 1 v"
    have vals: "sbw_values ?w" using Suc.prems(1) by (rule sbw_backup_values)
    have ord: "?w ! 1 \<le> ?w ! 3" using Suc.prems(1) by (rule sbw_backup_ordered)
    have "sbw_dist (sbw_backup 1 1 1 ?w) ?w \<le> 9/10 * sbw_dist ?w v"
      by (rule sbw_backup_contracts)
    also have "\<dots> \<le> 9/10 * (9/20 * theta * (10/9) ^ Suc j)"
      using Suc.prems(3) by simp
    also have "\<dots> = 9/20 * theta * (10/9) ^ j" by simp
    finally have "\<exists>u Q. sbw_values u \<and> sbw_small 1 1 1 theta u \<and>
         q_sweep u slippery_bandit_walk 1 5 2 = Inr Q \<and>
         vi_loop slippery_bandit_walk 1 theta 5 2 ?w = Some (Inr (Q, u))"
      using vals ord by (intro Suc.IH)
    moreover have "vi_loop slippery_bandit_walk 1 theta 5 2 v
        = vi_loop slippery_bandit_walk 1 theta 5 2 ?w"
      using d(1) False by (subst vi_loop.simps)
        (simp add: sbw_q_sweep [OF len] sbw_row_max [OF Suc.prems(1,2)] del: One_nat_def)
    ultimately show ?thesis by simp
  qed
qed

lemma sbw_converged_values:
  assumes "sbw_values u" "sbw_small 1 1 1 theta u" "theta \<le> 1 / 10 ^ 6"
  shows "0 < u ! 2" "u ! 2 < 1" "u ! 1 < u ! 3" "approx_equal u sbw_expected_values"
proof -
  from assms(1) have b: "0 \<le> u ! 1" "u ! 1 \<le> 1" "0 \<le> u ! 2" "u ! 2 \<le> 1" "0 \<le> u ! 3" "u ! 3 \<le> 1"
    and z: "u ! 0 = 0" "u ! 4 = 0" and len: "length u = 5"
    by (simp_all add: sbw_values_def)
  have V: "sbw_backup 1 1 1 u ! 1 = 8/10 * u ! 2"
    "sbw_backup 1 1 1 u ! 2 = 8/10 * u ! 3 + 2/10 * u ! 1"
    "sbw_backup 1 1 1 u ! 3 = 8/10 + 2/10 * u ! 2"
    by (simp_all add: sbw_backup_nth del: One_nat_def)
  from assms(2) have s: "\<bar>u ! 1 - 8/10 * u ! 2\<bar> < theta"
    "\<bar>u ! 2 - (8/10 * u ! 3 + 2/10 * u ! 1)\<bar> < theta"
    "\<bar>u ! 3 - (8/10 + 2/10 * u ! 2)\<bar> < theta"
    unfolding sbw_small_def V by simp_all
  have t: "theta \<le> 1 / 1000000" using assms(3) by simp
  have e2: "\<bar>u ! 2 - 80/85\<bar> < 3 * theta" using s by argo
  have e1: "\<bar>u ! 1 - 64/85\<bar> < 4 * theta" using s e2 by argo
  have e3: "\<bar>u ! 3 - 84/85\<bar> < 2 * theta" using s e2 by argo
  show "0 < u ! 2" using e2 t by argo
  show "u ! 2 < 1" using e2 t by argo
  show "u ! 1 < u ! 3" using e1 e3 t by argo
  have a: "\<bar>u ! 1 - 7529 / 10000\<bar> < 1 / 10000" using e1 t by argo
  have b: "\<bar>u ! 2 - 9412 / 10000\<bar> < 1 / 10000" using e2 t by argo
  have c: "\<bar>u ! 3 - 9882 / 10000\<bar> < 1 / 10000" using e3 t by argo
  have "\<bar>u ! i - sbw_expected_values ! i\<bar> < 1 / 10 ^ 4" if "i < 5" for i
  proof -
    from that have "i = 0 \<or> i = 1 \<or> i = 2 \<or> i = 3 \<or> i = 4" by arith
    then show ?thesis
      using a b c z by (auto simp: sbw_expected_values_def simp del: One_nat_def)
  qed
  then show "approx_equal u sbw_expected_values"
    by (simp add: approx_equal_def sbw_expected_values_def len)
qed

lemma sbw_value_iteration:
  assumes th: "theta = 1 / 10 ^ 10"
  shows "\<exists>V. value_iteration slippery_bandit_walk 1 theta = Some (Inr (sbw_optimal_policy, V))
             \<and> approx_equal V sbw_expected_values"
proof -
  have pos: "0 < theta" and small: "theta \<le> 1 / 10 ^ 6" by (simp_all add: th)
  have d0: "sbw_dist (sbw_backup 1 1 1 (replicate 5 0)) (replicate 5 0)
     \<le> 9/20 * theta * (10/9) ^ 230"
    using sbw_first_dist [of 1 1 1] by (simp only: th)
  have o0: "replicate 5 (0::real) ! 1 \<le> replicate 5 0 ! 3" by simp
  from sbw_vi_loop_terminates [OF pos sbw_zeros o0 d0]
  obtain u Q where u: "sbw_values u" "sbw_small 1 1 1 theta u"
    and Q: "q_sweep u slippery_bandit_walk 1 5 2 = Inr Q"
    and loop: "vi_loop slippery_bandit_walk 1 theta 5 2 (replicate 5 0) = Some (Inr (Q, u))"
    by blast
  have len: "length u = 5" using u(1) by (simp add: sbw_values_def)
  note good = sbw_converged_values [OF u small]
  have pc: "policy_constructor Q = Inr sbw_optimal_policy"
    using Q sbw_greedy_table [OF good(1-3)] by (simp add: sbw_q_sweep [OF len])
  have "getitem slippery_bandit_walk 0
      = Inr [(0, [(1, 0, 0, True)]), (1, [(1, 0, 0, True)])]"
    by (simp add: getitem_def sbw_row0)
  moreover have "length [(0 :: nat, [(1 :: real, 0 :: int, 0 :: real, True)]),
       (1, [(1, 0, 0, True)])] = 2" by simp
  ultimately have "value_iteration slippery_bandit_walk 1 theta
      = Some (Inr (sbw_optimal_policy, u))"
    by (simp only: value_iteration_def sum.case option.case prod.case sbw_length loop pc)
  with good(4) show ?thesis by blast
qed

text \<open>
  C8: on the Slippery Bandit Walk with \<open>gamma = 1\<close> and \<open>theta = 1e-10\<close>, value
  iteration, and policy iteration from every initial policy that \<open>np.random.randint\<close>
  can draw, return the policy \<open>{0: 0, 1: 1, 2: 1, 3: 1, 4: 0}\<close> and a value function
  within \<open>1e-4\<close> of \<open>[0, 0.7529, 0.9412, 0.9882, 0]\<close> in every state.
\<close>

theorem slippery_bandit_walk_solved:
  "(\<exists>V. value_iteration slippery_bandit_walk 1 (1 / 10 ^ 10)
           = Some (Inr (sbw_optimal_policy, V))
        \<and> approx_equal V sbw_expected_values)
   \<and> (\<forall>rnd. randint_result 2 5 rnd \<longrightarrow>
        (\<exists>V. policy_iteration rnd slippery_bandit_walk 1 (1 / 10 ^ 10)
                = Some (Inr (sbw_optimal_policy, V))
             \<and> approx_equal V sbw_expected_values))"
  using sbw_value_iteration [of "1 / 10 ^ 10"] sbw_policy_iteration [of _ "1 / 10 ^ 10"]
  by blast

theorem slippery_bandit_walk_solved_witness:
  "randint_result 2 5 [1, 0, 1, 0, 1]
   \<and> (\<exists>V. policy_iteration [1, 0, 1, 0, 1] slippery_bandit_walk 1 (1 / 10 ^ 10)
                = Some (Inr (sbw_optimal_policy, V))
             \<and> approx_equal V sbw_expected_values)"
proof -
  have r: "randint_result 2 5 [1, 0, 1, 0, 1]" by (simp add: randint_result_def)
  with slippery_bandit_walk_solved show ?thesis by blast
qed

section \<open>Calls leave the objects they were given unchanged\<close>

lemma preserved_refl: "preserved h h"
  by (simp add: preserved_def)

lemma preserved_alloc:
  assumes "preserved h0 h" and "alloc h x = (r, h')"
  shows "preserved h0 h'" and "length h0 \<le> r" and "r < length h'"
  using assms by (auto simp: preserved_def alloc_def)

lemma preserved_update:
  assumes "preserved h0 h" and "length h0 \<le> r"
  shows "preserved h0 (h[r := x])"
  using assms by (simp add: preserved_def)

lemma preserved_nth: "preserved h h' \<Longrightarrow> a < length h \<Longrightarrow> h' ! a = h ! a"
  by (metis nth_take preserved_def)

lemma accumulate_st_preserved:
  "accumulate_st gamma sv cv state outcomes h = Inr h' \<Longrightarrow> preserved h0 h \<Longrightarrow>
   length h0 \<le> cv \<Longrightarrow> preserved h0 h'"
proof (induction outcomes arbitrary: h)
  case Nil
  then show ?case by simp
next
  case (Cons o1 outcomes)
  obtain p s' r d where o1: "o1 = (p, s', r, d)" by (cases o1) auto
  from Cons.prems(1) obtain x where
    "accumulate_st gamma sv cv state outcomes (h[cv := x]) = Inr h'"
    by (auto simp: o1 split: sum.splits if_splits)
  moreover have "preserved h0 (h[cv := x])"
    using Cons.prems(2,3) by (rule preserved_update)
  ultimately show ?case using Cons.prems(3) by (rule Cons.IH)
qed

lemma pe_states_st_preserved:
  "pe_states_st pol mdp gamma sv cv states h = Inr h' \<Longrightarrow> preserved h0 h \<Longrightarrow>
   length h0 \<le> cv \<Longrightarrow> preserved h0 h'"
proof (induction states arbitrary: h)
  case Nil
  then show ?case by simp
next
  case (Cons state states)
  from Cons.prems(1) obtain outcomes h1 where
    a: "accumulate_st gamma sv cv state outcomes h = Inr h1"
    and b: "pe_states_st pol mdp gamma sv cv states h1 = Inr h'"
    by (auto split: sum.splits)
  from a Cons.prems(2,3) have "preserved h0 h1" by (rule accumulate_st_preserved)
  with b show ?case using Cons.prems(3) by (rule Cons.IH)
qed

lemma pe_loop_st_preserved:
  assumes run: "pe_loop_st pol mdp gamma theta S sv h = Some (Inr (r, h'))"
    and pres: "preserved h0 h"
  shows "preserved h0 h'"
proof -
  let ?P = "\<lambda>(pol :: ref) (mdp :: ref) (gamma :: real) (theta :: real) (S :: nat) (sv :: ref)
      (h :: heap) (y :: error + ref \<times> heap).
      \<forall>r h'. preserved h0 h \<longrightarrow> y = Inr (r, h') \<longrightarrow> preserved h0 h'"
  have "?P pol mdp gamma theta S sv h (Inr (r, h'))"
  proof (rule pe_loop_st.raw_induct [where P = ?P, OF _ run])
    fix f pol mdp gamma theta S sv h y
    assume IH: "\<And>pol mdp gamma theta S sv h y.
        f pol mdp gamma theta S sv h = Some y \<Longrightarrow> ?P pol mdp gamma theta S sv h y"
      and body: "(case alloc h (ArrayObj (replicate S 0)) of
        (current_values, h1) \<Rightarrow>
          (case pe_states_st pol mdp gamma sv current_values [0..<S] h1 of
             Inl e \<Rightarrow> Some (Inl e)
           | Inr h2 \<Rightarrow> (case get_array h2 sv of Inl e \<Rightarrow> Some (Inl e)
           | Inr vs \<Rightarrow> (case get_array h2 current_values of Inl e \<Rightarrow> Some (Inl e)
           | Inr cs \<Rightarrow> (case max_abs_diff vs cs of Inl e \<Rightarrow> Some (Inl e)
           | Inr d \<Rightarrow>
               if d < theta then Some (Inr (current_values, h2))
               else (case alloc h2 (ArrayObj cs) of
                       (copy, h3) \<Rightarrow> f pol mdp gamma theta S copy h3)))))) = Some y"
    show "?P pol mdp gamma theta S sv h y"
    proof (intro allI impI)
      fix r h'
      assume pres: "preserved h0 h" and y: "y = Inr (r, h')"
      obtain cv h1 where al: "alloc h (ArrayObj (replicate S 0)) = (cv, h1)"
        by (cases "alloc h (ArrayObj (replicate S 0))")
      note p1 = preserved_alloc [OF pres al]
      from body obtain h2 where
        sw: "pe_states_st pol mdp gamma sv cv [0..<S] h1 = Inr h2"
        unfolding al y by (cases "pe_states_st pol mdp gamma sv cv [0..<S] h1") simp_all
      from sw p1(1,2) have p2: "preserved h0 h2" by (rule pe_states_st_preserved)
      from body obtain vs where vs: "get_array h2 sv = Inr vs"
        unfolding al y by (cases "get_array h2 sv") (simp_all add: sw)
      from body obtain cs where cs: "get_array h2 cv = Inr cs"
        unfolding al y by (cases "get_array h2 cv") (simp_all add: sw vs)
      from body obtain d where d: "max_abs_diff vs cs = Inr d"
        unfolding al y by (cases "max_abs_diff vs cs") (simp_all add: sw vs cs)
      show "preserved h0 h'"
      proof (cases "d < theta")
        case True
        with body p2 show ?thesis unfolding al y by (simp add: sw vs cs d)
      next
        case False
        obtain copy h3 where al3: "alloc h2 (ArrayObj cs) = (copy, h3)"
          by (cases "alloc h2 (ArrayObj cs)")
        with body False have "f pol mdp gamma theta S copy h3 = Some (Inr (r, h'))"
          unfolding al y by (simp add: sw vs cs d)
        from IH [OF this] preserved_alloc(1) [OF p2 al3] show ?thesis by blast
      qed
    qed
  qed
  with pres show ?thesis by blast
qed

lemma policy_evaluation_st_preserved:
  assumes "policy_evaluation_st pol mdp gamma theta h = Some (Inr (r, h'))"
    and pres: "preserved h0 h"
  shows "preserved h0 h'"
proof -
  from assms(1) obtain m where m: "get_mdp h mdp = Inr m"
    by (cases "get_mdp h mdp") (simp_all add: policy_evaluation_st_def)
  obtain sv h1 where al: "alloc h (ArrayObj (replicate (length m) 0)) = (sv, h1)"
    by (cases "alloc h (ArrayObj (replicate (length m) 0))")
  from assms(1) have loop: "pe_loop_st pol mdp gamma theta (length m) sv h1 = Some (Inr (r, h'))"
    by (simp add: policy_evaluation_st_def m al)
  from loop preserved_alloc(1) [OF pres al] show ?thesis by (rule pe_loop_st_preserved)
qed

lemma accumulate_q_st_preserved:
  "accumulate_q_st gamma vf q state action outcomes h = Inr h' \<Longrightarrow> preserved h0 h \<Longrightarrow>
   length h0 \<le> q \<Longrightarrow> preserved h0 h'"
proof (induction outcomes arbitrary: h)
  case Nil
  then show ?case by simp
next
  case (Cons o1 outcomes)
  obtain p s' r d where o1: "o1 = (p, s', r, d)" by (cases o1) auto
  from Cons.prems(1) obtain x where
    "accumulate_q_st gamma vf q state action outcomes (h[q := x]) = Inr h'"
    by (auto simp: o1 split: sum.splits if_splits)
  moreover have "preserved h0 (h[q := x])"
    using Cons.prems(2,3) by (rule preserved_update)
  ultimately show ?case using Cons.prems(3) by (rule Cons.IH)
qed

lemma q_actions_st_preserved:
  "q_actions_st mdp gamma vf q state actions h = Inr h' \<Longrightarrow> preserved h0 h \<Longrightarrow>
   length h0 \<le> q \<Longrightarrow> preserved h0 h'"
proof (induction actions arbitrary: h)
  case Nil
  then show ?case by simp
next
  case (Cons action actions)
  from Cons.prems(1) obtain outcomes h1 where
    a: "accumulate_q_st gamma vf q state action outcomes h = Inr h1"
    and b: "q_actions_st mdp gamma vf q state actions h1 = Inr h'"
    by (auto split: sum.splits)
  from a Cons.prems(2,3) have "preserved h0 h1" by (rule accumulate_q_st_preserved)
  with b show ?case using Cons.prems(3) by (rule Cons.IH)
qed

lemma q_states_st_preserved:
  "q_states_st mdp gamma vf q A states h = Inr h' \<Longrightarrow> preserved h0 h \<Longrightarrow>
   length h0 \<le> q \<Longrightarrow> preserved h0 h'"
proof (induction states arbitrary: h)
  case Nil
  then show ?case by simp
next
  case (Cons state states)
  from Cons.prems(1) obtain h1 where
    a: "q_actions_st mdp gamma vf q state [0..<A] h = Inr h1"
    and b: "q_states_st mdp gamma vf q A states h1 = Inr h'"
    by (auto split: sum.splits)
  from a Cons.prems(2,3) have "preserved h0 h1" by (rule q_actions_st_preserved)
  with b show ?case using Cons.prems(3) by (rule Cons.IH)
qed

lemma policy_constructor_st_preserved:
  assumes "policy_constructor_st q h = Inr (r, h')" and "preserved h0 h"
  shows "preserved h0 h'"
proof -
  from assms(1) obtain x where "alloc h x = (r, h')"
    by (auto simp: policy_constructor_st_def split: sum.splits)
  with assms(2) show ?thesis by (rule preserved_alloc)
qed

lemma policy_improvement_st_preserved:
  assumes "policy_improvement_st vf mdp gamma h = Inr (r, h')" and "preserved h0 h"
  shows "preserved h0 h'"
proof -
  from assms(1) obtain m where m: "get_mdp h mdp = Inr m"
    by (cases "get_mdp h mdp") (simp_all add: policy_improvement_st_def)
  from assms(1) obtain row0 where row0: "getitem m 0 = Inr row0"
    by (cases "getitem m 0") (simp_all add: policy_improvement_st_def m)
  obtain q h1 where al: "alloc h (TableObj (replicate (length m) (replicate (length row0) 0)))
      = (q, h1)"
    by (cases "alloc h (TableObj (replicate (length m) (replicate (length row0) 0)))")
  from assms(1) obtain h2 where
    sw: "q_states_st mdp gamma vf q (length row0) [0..<length m] h1 = Inr h2"
    by (cases "q_states_st mdp gamma vf q (length row0) [0..<length m] h1")
       (simp_all add: policy_improvement_st_def m row0 al)
  from assms(1) have pc: "policy_constructor_st q h2 = Inr (r, h')"
    by (simp add: policy_improvement_st_def m row0 al sw)
  note p1 = preserved_alloc [OF assms(2) al]
  from sw p1(1,2) have "preserved h0 h2" by (rule q_states_st_preserved)
  with pc show ?thesis by (rule policy_constructor_st_preserved)
qed

lemma pi_loop_st_preserved:
  assumes run: "pi_loop_st mdp gamma theta S cur h = Some (Inr (r, h'))"
    and pres: "preserved h0 h"
  shows "preserved h0 h'"
proof -
  let ?P = "\<lambda>(mdp :: ref) (gamma :: real) (theta :: real) (S :: nat) (cur :: ref)
      (h :: heap) (y :: error + (ref \<times> ref) \<times> heap).
      \<forall>r h'. preserved h0 h \<longrightarrow> y = Inr (r, h') \<longrightarrow> preserved h0 h'"
  have "?P mdp gamma theta S cur h (Inr (r, h'))"
  proof (rule pi_loop_st.raw_induct [where P = ?P, OF _ run])
    fix f mdp gamma theta S cur h y
    assume IH: "\<And>mdp gamma theta S cur h y.
        f mdp gamma theta S cur h = Some y \<Longrightarrow> ?P mdp gamma theta S cur h y"
      and body: "(case policy_evaluation_st cur mdp gamma theta h of None \<Rightarrow> None
        | Some r \<Rightarrow>
           (case r of Inl e \<Rightarrow> Some (Inl e)
            | Inr (value_function, h1) \<Rightarrow>
               (case policy_improvement_st value_function mdp gamma h1 of Inl e \<Rightarrow> Some (Inl e)
                | Inr (improved_policy, h2) \<Rightarrow>
                   (case get_dict h2 improved_policy of Inl e \<Rightarrow> Some (Inl e)
                    | Inr improved \<Rightarrow> (case rebuild improved S of Inl e \<Rightarrow> Some (Inl e)
                    | Inr d \<Rightarrow> (case get_dict h2 cur of Inl e \<Rightarrow> Some (Inl e)
                    | Inr current \<Rightarrow>
                        if dict_eq current d
                        then Some (Inr ((improved_policy, value_function), h2))
                        else f mdp gamma theta S improved_policy h2)))))) = Some y"
    show "?P mdp gamma theta S cur h y"
    proof (intro allI impI)
      fix r h'
      assume pres: "preserved h0 h" and y: "y = Inr (r, h')"
      from body obtain vf h1 where ev: "policy_evaluation_st cur mdp gamma theta h
          = Some (Inr (vf, h1))"
        unfolding y by (auto split: option.splits sum.splits)
      from ev pres have p1: "preserved h0 h1" by (rule policy_evaluation_st_preserved)
      from body obtain imp h2 where im: "policy_improvement_st vf mdp gamma h1 = Inr (imp, h2)"
        unfolding y ev by (auto split: sum.splits)
      from im p1 have p2: "preserved h0 h2" by (rule policy_improvement_st_preserved)
      from body obtain improved where g1: "get_dict h2 imp = Inr improved"
        unfolding y ev by (cases "get_dict h2 imp") (simp_all add: im)
      from body obtain d where rb: "rebuild improved S = Inr d"
        unfolding y ev by (cases "rebuild improved S") (simp_all add: im g1)
      from body obtain current where g2: "get_dict h2 cur = Inr current"
        unfolding y ev by (cases "get_dict h2 cur") (simp_all add: im g1 rb)
      show "preserved h0 h'"
      proof (cases "dict_eq current d")
        case True
        with body p2 show ?thesis unfolding y ev by (simp add: im g1 rb g2)
      next
        case False
        with body have "f mdp gamma theta S imp h2 = Some (Inr (r, h'))"
          unfolding y ev by (simp add: im g1 rb g2)
        from IH [OF this] p2 show ?thesis by blast
      qed
    qed
  qed
  with pres show ?thesis by blast
qed

lemma policy_iteration_st_preserved:
  assumes "policy_iteration_st rnd mdp gamma theta h = Some (Inr (r, h'))"
  shows "preserved h h'"
proof -
  from assms obtain m where m: "get_mdp h mdp = Inr m"
    by (cases "get_mdp h mdp") (simp_all add: policy_iteration_st_def)
  from assms obtain row0 where row0: "getitem m 0 = Inr row0"
    by (cases "getitem m 0") (simp_all add: policy_iteration_st_def m)
  obtain cur h1 where al: "alloc h (DictObj (enumerate 0 rnd)) = (cur, h1)"
    by (cases "alloc h (DictObj (enumerate 0 rnd))")
  from assms have "pi_loop_st mdp gamma theta (length m) cur h1 = Some (Inr (r, h'))"
    by (simp add: policy_iteration_st_def m row0 al split: if_splits)
  from this preserved_alloc(1) [OF preserved_refl al] show ?thesis
    by (rule pi_loop_st_preserved)
qed

lemma vi_loop_st_preserved:
  assumes run: "vi_loop_st mdp gamma theta S A vf h = Some (Inr (r, h'))"
    and pres: "preserved h0 h"
  shows "preserved h0 h'"
proof -
  let ?P = "\<lambda>(mdp :: ref) (gamma :: real) (theta :: real) (S :: nat) (A :: nat) (vf :: ref)
      (h :: heap) (y :: error + (ref \<times> ref) \<times> heap).
      \<forall>r h'. preserved h0 h \<longrightarrow> y = Inr (r, h') \<longrightarrow> preserved h0 h'"
  have "?P mdp gamma theta S A vf h (Inr (r, h'))"
  proof (rule vi_loop_st.raw_induct [where P = ?P, OF _ run])
    fix f mdp gamma theta S A vf h y
    assume IH: "\<And>mdp gamma theta S A vf h y.
        f mdp gamma theta S A vf h = Some y \<Longrightarrow> ?P mdp gamma theta S A vf h y"
      and body: "(case alloc h (TableObj (replicate S (replicate A 0))) of
        (Q_vals, h1) \<Rightarrow>
          (case q_states_st mdp gamma vf Q_vals A [0..<S] h1 of
             Inl e \<Rightarrow> Some (Inl e)
           | Inr h2 \<Rightarrow> (case get_table h2 Q_vals of Inl e \<Rightarrow> Some (Inl e)
           | Inr q \<Rightarrow> (case np_max_axis1 q of Inl e \<Rightarrow> Some (Inl e)
           | Inr m \<Rightarrow> (case get_array h2 vf of Inl e \<Rightarrow> Some (Inl e)
           | Inr vs \<Rightarrow> (case max_abs_diff vs m of Inl e \<Rightarrow> Some (Inl e)
           | Inr d \<Rightarrow>
               if d < theta then Some (Inr ((Q_vals, vf), h2))
               else (case alloc h2 (ArrayObj m) of
                       (new_values, h3) \<Rightarrow> f mdp gamma theta S A new_values h3))))))) = Some y"
    show "?P mdp gamma theta S A vf h y"
    proof (intro allI impI)
      fix r h'
      assume pres: "preserved h0 h" and y: "y = Inr (r, h')"
      obtain q h1 where al: "alloc h (TableObj (replicate S (replicate A 0))) = (q, h1)"
        by (cases "alloc h (TableObj (replicate S (replicate A 0)))")
      note p1 = preserved_alloc [OF pres al]
      from body obtain h2 where sw: "q_states_st mdp gamma vf q A [0..<S] h1 = Inr h2"
        unfolding al y by (cases "q_states_st mdp gamma vf q A [0..<S] h1") simp_all
      from sw p1(1,2) have p2: "preserved h0 h2" by (rule q_states_st_preserved)
      from body obtain t where t: "get_table h2 q = Inr t"
        unfolding al y by (cases "get_table h2 q") (simp_all add: sw)
      from body obtain m where m: "np_max_axis1 t = Inr m"
        unfolding al y by (cases "np_max_axis1 t") (simp_all add: sw t)
      from body obtain vs where vs: "get_array h2 vf = Inr vs"
        unfolding al y by (cases "get_array h2 vf") (simp_all add: sw t m)
      from body obtain d where d: "max_abs_diff vs m = Inr d"
        unfolding al y by (cases "max_abs_diff vs m") (simp_all add: sw t m vs)
      show "preserved h0 h'"
      proof (cases "d < theta")
        case True
        with body p2 show ?thesis unfolding al y by (simp add: sw t m vs d)
      next
        case False
        obtain nv h3 where al3: "alloc h2 (ArrayObj m) = (nv, h3)"
          by (cases "alloc h2 (ArrayObj m)")
        with body False have "f mdp gamma theta S A nv h3 = Some (Inr (r, h'))"
          unfolding al y by (simp add: sw t m vs d)
        from IH [OF this] preserved_alloc(1) [OF p2 al3] show ?thesis by blast
      qed
    qed
  qed
  with pres show ?thesis by blast
qed

lemma value_iteration_st_preserved:
  assumes "value_iteration_st mdp gamma theta h = Some (Inr (r, h'))"
  shows "preserved h h'"
proof -
  from assms obtain m where m: "get_mdp h mdp = Inr m"
    by (cases "get_mdp h mdp") (simp_all add: value_iteration_st_def)
  from assms obtain row0 where row0: "getitem m 0 = Inr row0"
    by (cases "getitem m 0") (simp_all add: value_iteration_st_def m)
  obtain vf h0 where al: "alloc h (ArrayObj (replicate (length m) 0)) = (vf, h0)"
    by (cases "alloc h (ArrayObj (replicate (length m) 0))")
  from assms obtain q fv h1 where
    loop: "vi_loop_st mdp gamma theta (length m) (length row0) vf h0 = Some (Inr ((q, fv), h1))"
    by (auto simp: value_iteration_st_def m row0 al split: option.splits sum.splits)
  from assms obtain pol h2 where pc: "policy_constructor_st q h1 = Inr (pol, h2)"
    and r: "h' = h2"
    by (auto simp: value_iteration_st_def m row0 al loop split: sum.splits)
  from loop preserved_alloc(1) [OF preserved_refl al] have "preserved h h1"
    by (rule vi_loop_st_preserved)
  with pc r show ?thesis by (auto dest: policy_constructor_st_preserved)
qed

lemma get_mdp_preserved:
  assumes "preserved h h'" and "get_mdp h mdp = Inr m"
  shows "get_mdp h' mdp = Inr m"
proof -
  from assms(2) have lt: "mdp < length h" by (auto simp: get_mdp_def split: if_splits)
  with assms(1) have "h' ! mdp = h ! mdp" "mdp < length h'"
    by (auto simp: preserved_nth preserved_def)
  with assms(2) lt show ?thesis by (simp add: get_mdp_def)
qed

text \<open>
  C6: a call of policy evaluation, policy improvement, policy iteration or value
  iteration that returns leaves every object that was in the store before the call at
  its reference and unchanged; it only adds objects. In particular the process it was
  given, with its states, actions and outcome tuples, is the same before and after.
\<close>

theorem calls_never_mutate_the_mdp:
  "(policy_evaluation_st pol mdp gamma theta h = Some (Inr (r1, h1)) \<longrightarrow>
      preserved h h1 \<and> get_mdp h1 mdp = get_mdp h mdp)
   \<and> (policy_improvement_st vf mdp gamma h = Inr (r2, h2) \<longrightarrow>
      preserved h h2 \<and> get_mdp h2 mdp = get_mdp h mdp)
   \<and> (policy_iteration_st rnd mdp gamma theta h = Some (Inr (r3, h3)) \<longrightarrow>
      preserved h h3 \<and> get_mdp h3 mdp = get_mdp h mdp)
   \<and> (value_iteration_st mdp gamma theta h = Some (Inr (r4, h4)) \<longrightarrow>
      preserved h h4 \<and> get_mdp h4 mdp = get_mdp h mdp)"
proof (intro conjI impI)
  assume run: "policy_evaluation_st pol mdp gamma theta h = Some (Inr (r1, h1))"
  then show p: "preserved h h1" using preserved_refl by (rule policy_evaluation_st_preserved)
  from run obtain m where "get_mdp h mdp = Inr m"
    by (cases "get_mdp h mdp") (simp_all add: policy_evaluation_st_def)
  with p show "get_mdp h1 mdp = get_mdp h mdp" by (simp add: get_mdp_preserved)
next
  assume run: "policy_improvement_st vf mdp gamma h = Inr (r2, h2)"
  then show p: "preserved h h2" using preserved_refl by (rule policy_improvement_st_preserved)
  from run obtain m where "get_mdp h mdp = Inr m"
    by (cases "get_mdp h mdp") (simp_all add: policy_improvement_st_def)
  with p show "get_mdp h2 mdp = get_mdp h mdp" by (simp add: get_mdp_preserved)
next
  assume run: "policy_iteration_st rnd mdp gamma theta h = Some (Inr (r3, h3))"
  then show p: "preserved h h3" by (rule policy_iteration_st_preserved)
  from run obtain m where "get_mdp h mdp = Inr m"
    by (cases "get_mdp h mdp") (simp_all add: policy_iteration_st_def)
  with p show "get_mdp h3 mdp = get_mdp h mdp" by (simp add: get_mdp_preserved)
next
  assume run: "value_iteration_st mdp gamma theta h = Some (Inr (r4, h4))"
  then show p: "preserved h h4" by (rule value_iteration_st_preserved)
  from run obtain m where "get_mdp h mdp = Inr m"
    by (cases "get_mdp h mdp") (simp_all add: value_iteration_st_def)
  with p show "get_mdp h4 mdp = get_mdp h mdp" by (simp add: get_mdp_preserved)
qed

lemmas store_simps =
  single_state_store_def single_state_mdp_def get_mdp_def get_dict_def get_array_def
  get_table_def alloc_def getitem_def np_index_def max_abs_diff_def nth_append
  policy_constructor_st_def policy_constructor_def np_argmax_axis1_def np_max_axis1_def
  rebuild_def dict_eq_def

lemma single_state_store_evaluation:
  "policy_evaluation_st 1 0 1 (1 / 10 ^ 10) single_state_store
     = Some (Inr (4, single_state_store @ [ArrayObj [0], ArrayObj [0]]))"
  apply (simp add: policy_evaluation_st_def store_simps)
  apply (subst pe_loop_st.simps)
  apply (simp add: store_simps)
  done

lemma single_state_store_improvement:
  "policy_improvement_st 2 0 1 single_state_store
     = Inr (4, single_state_store @ [TableObj [[0]], DictObj [(0, 0)]])"
  by (simp add: policy_improvement_st_def store_simps)

lemma single_state_store_iteration:
  "policy_iteration_st [0] 0 1 (1 / 10 ^ 10) single_state_store
     = Some (Inr ((7, 5), single_state_store @
         [DictObj [(0, 0)], ArrayObj [0], ArrayObj [0], TableObj [[0]], DictObj [(0, 0)]]))"
  apply (simp add: policy_iteration_st_def store_simps)
  apply (subst pi_loop_st.simps)
  apply (simp add: policy_evaluation_st_def store_simps)
  apply (subst pe_loop_st.simps)
  apply (simp add: policy_improvement_st_def store_simps)
  done

lemma single_state_store_value_iteration:
  "value_iteration_st 0 1 (1 / 10 ^ 10) single_state_store
     = Some (Inr ((5, 3), single_state_store @
         [ArrayObj [0], TableObj [[0]], DictObj [(0, 0)]]))"
  apply (simp add: value_iteration_st_def store_simps)
  apply (subst vi_loop_st.simps)
  apply (simp add: store_simps)
  done

theorem calls_never_mutate_the_mdp_witness:
  "policy_evaluation_st 1 0 1 (1 / 10 ^ 10) single_state_store
     = Some (Inr (4, single_state_store @ [ArrayObj [0], ArrayObj [0]]))
   \<and> preserved single_state_store (single_state_store @ [ArrayObj [0], ArrayObj [0]])
   \<and> policy_improvement_st 2 0 1 single_state_store
     = Inr (4, single_state_store @ [TableObj [[0]], DictObj [(0, 0)]])
   \<and> preserved single_state_store (single_state_store @ [TableObj [[0]], DictObj [(0, 0)]])
   \<and> policy_iteration_st [0] 0 1 (1 / 10 ^ 10) single_state_store
     = Some (Inr ((7, 5), single_state_store @
         [DictObj [(0, 0)], ArrayObj [0], ArrayObj [0], TableObj [[0]], DictObj [(0, 0)]]))
   \<and> preserved single_state_store (single_state_store @
         [DictObj [(0, 0)], ArrayObj [0], ArrayObj [0], TableObj [[0]], DictObj [(0, 0)]])
   \<and> value_iteration_st 0 1 (1 / 10 ^ 10) single_state_store
     = Some (Inr ((5, 3), single_state_store @
         [ArrayObj [0], TableObj [[0]], DictObj [(0, 0)]]))
   \<and> preserved single_state_store (single_state_store @
         [ArrayObj [0], TableObj [[0]], DictObj [(0, 0)]])"
  using calls_never_mutate_the_mdp
    [of 1 0 1 "1 / 10 ^ 10" single_state_store 4
        "single_state_store @ [ArrayObj [0], ArrayObj [0]]"
        2 4 "single_state_store @ [TableObj [[0]], DictObj [(0, 0)]]"
        "[0]" "(7, 5)" "single_state_store @
         [DictObj [(0, 0)], ArrayObj [0], ArrayObj [0], TableObj [[0]], DictObj [(0, 0)]]"
        "(5, 3)" "single_state_store @ [ArrayObj [0], TableObj [[0]], DictObj [(0, 0)]]"]
    single_state_store_evaluation single_state_store_improvement
    single_state_store_iteration single_state_store_value_iteration
  by blast

section \<open>The store model computes what the functional model computes\<close>

text \<open>
  The functions over the store return, behind the references of their results, the
  values that the functions over lists and association lists return, with the same
  exceptions, and they return exactly when those do. The frame property above is
  therefore a property of the same computations as the other theorems.
\<close>

lemma store_all_length [simp]: "length (store_all cs ss ys) = length cs"
  by (induction cs ss ys rule: store_all.induct) simp_all

lemma store_all_snoc:
  "length ss = length ys \<Longrightarrow> store_all cs (ss @ [s]) (ys @ [y]) = (store_all cs ss ys)[s := y]"
proof (induction ss arbitrary: cs ys)
  case Nil
  then show ?case by simp
next
  case (Cons a ss)
  then obtain b ys' where ys: "ys = b # ys'" by (cases ys) auto
  with Cons show ?case by simp
qed

lemma store_all_upt:
  "length ys = n \<Longrightarrow> n \<le> length cs \<Longrightarrow> store_all cs [0..<n] ys = ys @ drop n cs"
proof (induction n arbitrary: ys)
  case 0
  then show ?case by simp
next
  case (Suc n)
  from Suc.prems(1) obtain ys' y where ys: "ys = ys' @ [y]" "length ys' = n"
    by (metis length_Suc_conv_rev)
  have "store_all cs [0..<Suc n] ys = (store_all cs [0..<n] ys')[n := y]"
    using ys by (simp add: store_all_snoc)
  also have "\<dots> = (ys' @ drop n cs)[n := y]"
    using Suc.IH [OF ys(2)] Suc.prems(2) by simp
  also have "\<dots> = ys' @ (drop n cs)[0 := y]"
    using ys(2) by (simp add: list_update_append)
  also have "(drop n cs)[0 := y] = y # drop (Suc n) cs"
    using Suc.prems(2) by (metis Cons_nth_drop_Suc Suc_le_lessD list_update_code(2))
  finally show ?case using ys by simp
qed

lemma store_all_zeros:
  "length ys = n \<Longrightarrow> store_all (replicate n z) [0..<n] ys = ys"
  using store_all_upt [of ys n "replicate n z"] by simp

lemma get_array_update:
  assumes "r < length h"
  shows "get_array (h[r := ArrayObj xs]) r = Inr xs"
    and "r' \<noteq> r \<Longrightarrow> get_array (h[r := x]) r' = get_array h r'"
    and "r' \<noteq> r \<Longrightarrow> get_mdp (h[r := x]) r' = get_mdp h r'"
    and "r' \<noteq> r \<Longrightarrow> get_dict (h[r := x]) r' = get_dict h r'"
  using assms by (simp_all add: get_array_def get_mdp_def get_dict_def)

lemma get_array_valid: "get_array h r = Inr xs \<Longrightarrow> r < length h \<and> h ! r = ArrayObj xs"
  by (auto simp: get_array_def split: if_splits obj.splits)

lemma accumulate_st_refines:
  assumes "sv \<noteq> cv"
  shows "get_array h sv = Inr vs \<Longrightarrow> get_array h cv = Inr cs \<Longrightarrow> state < length cs \<Longrightarrow>
     accumulate_st gamma sv cv state outcomes h =
       (case accumulate gamma vs (cs ! state) outcomes of Inl e \<Rightarrow> Inl e
        | Inr x \<Rightarrow> Inr (h[cv := ArrayObj (cs[state := x])]))"
proof (induction outcomes arbitrary: h cs)
  case Nil
  from get_array_valid [OF Nil(2)] have "h[cv := ArrayObj cs] = h" by (metis list_update_id)
  then show ?case by simp
next
  case (Cons o1 outcomes)
  obtain p s' r d where o1: "o1 = (p, s', r, d)" by (cases o1) auto
  note cvv = get_array_valid [OF Cons.prems(2)]
  show ?case
  proof (cases "np_index vs s'")
    case (Inl e)
    then show ?thesis using Cons.prems by (simp add: o1)
  next
    case (Inr v)
    let ?x = "cs ! state + p * (r + gamma * v * (if d then 0 else 1))"
    let ?cs = "cs[state := ?x]"
    let ?h = "h[cv := ArrayObj ?cs]"
    have "accumulate_st gamma sv cv state outcomes ?h =
       (case accumulate gamma vs (?cs ! state) outcomes of Inl e \<Rightarrow> Inl e
        | Inr x \<Rightarrow> Inr (?h[cv := ArrayObj (?cs[state := x])]))"
    proof (rule Cons.IH)
      show "get_array ?h sv = Inr vs"
        using Cons.prems(1) assms cvv by (simp add: get_array_update)
      show "get_array ?h cv = Inr ?cs" using cvv by (simp add: get_array_update)
      show "state < length ?cs" using Cons.prems(3) by simp
    qed
    then show ?thesis using Cons.prems Inr by (simp add: o1 cong: sum.case_cong)
  qed
qed

lemma pe_states_st_refines:
  assumes refs: "cv \<noteq> mdp" "cv \<noteq> pol" "cv \<noteq> sv"
  shows "get_mdp h mdp = Inr m \<Longrightarrow> get_dict h pol = Inr p \<Longrightarrow> get_array h sv = Inr vs \<Longrightarrow>
     get_array h cv = Inr cs \<Longrightarrow> distinct states \<Longrightarrow>
     (\<forall>s\<in>set states. s < length cs \<and> cs ! s = 0) \<Longrightarrow>
     pe_states_st pol mdp gamma sv cv states h =
       (case mapM_err (\<lambda>state.
          case getitem m state of Inl e \<Rightarrow> Inl e
          | Inr row \<Rightarrow> (case getitem p state of Inl e \<Rightarrow> Inl e
          | Inr a \<Rightarrow> (case getitem row a of Inl e \<Rightarrow> Inl e
          | Inr outcomes \<Rightarrow> accumulate gamma vs 0 outcomes))) states of
          Inl e \<Rightarrow> Inl e
        | Inr ys \<Rightarrow> Inr (h[cv := ArrayObj (store_all cs states ys)]))"
proof (induction states arbitrary: h cs)
  case Nil
  from get_array_valid [OF Nil(4)] have "h[cv := ArrayObj cs] = h" by (metis list_update_id)
  then show ?case by simp
next
  case (Cons state states)
  note cvv = get_array_valid [OF Cons.prems(4)]
  let ?F = "\<lambda>state.
          case getitem m state of Inl e \<Rightarrow> Inl e
          | Inr row \<Rightarrow> (case getitem p state of Inl e \<Rightarrow> Inl e
          | Inr a \<Rightarrow> (case getitem row a of Inl e \<Rightarrow> Inl e
          | Inr outcomes \<Rightarrow> accumulate gamma vs 0 outcomes))"
  show ?case
  proof (cases "?F state")
    case (Inl e)
    then show ?thesis
      using Cons.prems accumulate_st_refines [OF refs(3) [symmetric] Cons.prems(3,4), of state gamma]
      by (auto split: sum.splits)
  next
    case (Inr y)
    then obtain row a outcomes where l: "getitem m state = Inr row" "getitem p state = Inr a"
      "getitem row a = Inr outcomes" and acc: "accumulate gamma vs 0 outcomes = Inr y"
      by (auto split: sum.splits)
    let ?h = "h[cv := ArrayObj (cs[state := y])]"
    have st: "state < length cs" "cs ! state = 0" using Cons.prems(6) by simp_all
    have a1: "accumulate_st gamma sv cv state outcomes h = Inr ?h"
      using accumulate_st_refines [OF refs(3) [symmetric] Cons.prems(3,4) st(1), of gamma outcomes]
        acc st(2) by simp
    have "pe_states_st pol mdp gamma sv cv states ?h =
       (case mapM_err ?F states of Inl e \<Rightarrow> Inl e
        | Inr ys \<Rightarrow> Inr (?h[cv := ArrayObj (store_all (cs[state := y]) states ys)]))"
    proof (rule Cons.IH)
      show "get_mdp ?h mdp = Inr m" using Cons.prems(1) refs cvv by (simp add: get_array_update)
      show "get_dict ?h pol = Inr p" using Cons.prems(2) refs cvv by (simp add: get_array_update)
      show "get_array ?h sv = Inr vs" using Cons.prems(3) refs cvv by (simp add: get_array_update)
      show "get_array ?h cv = Inr (cs[state := y])" using cvv by (simp add: get_array_update)
      show "distinct states" using Cons.prems(5) by simp
      show "\<forall>s\<in>set states. s < length (cs[state := y]) \<and> cs[state := y] ! s = 0"
        using Cons.prems(5,6) by (auto simp: nth_list_update)
    qed
    then show ?thesis
      using Cons.prems(1,2) l a1 Inr
      by (cases "mapM_err ?F states") (simp_all cong: sum.case_cong)
  qed
qed

lemma get_mdp_valid: "get_mdp h r = Inr m \<Longrightarrow> r < length h \<and> h ! r = MdpObj m"
  by (auto simp: get_mdp_def split: if_splits obj.splits)

lemma get_dict_valid: "get_dict h r = Inr d \<Longrightarrow> r < length h \<and> h ! r = DictObj d"
  by (auto simp: get_dict_def split: if_splits obj.splits)

lemma get_table_valid: "get_table h r = Inr t \<Longrightarrow> r < length h \<and> h ! r = TableObj t"
  by (auto simp: get_table_def split: if_splits obj.splits)

lemma get_append:
  assumes "r < length h"
  shows "get_mdp (h @ ext) r = get_mdp h r" "get_dict (h @ ext) r = get_dict h r"
    "get_array (h @ ext) r = get_array h r" "get_table (h @ ext) r = get_table h r"
  using assms by (simp_all add: get_mdp_def get_dict_def get_array_def get_table_def nth_append)

lemma get_fresh:
  "get_array (h @ [ArrayObj xs]) (length h) = Inr xs"
  "get_table (h @ [TableObj t]) (length h) = Inr t"
  "get_dict (h @ [DictObj d]) (length h) = Inr d"
  by (simp_all add: get_array_def get_table_def get_dict_def)

lemma get_fresh2:
  "get_array (h @ [x, ArrayObj xs]) (Suc (length h)) = Inr xs"
  "get_table (h @ [x, TableObj t]) (Suc (length h)) = Inr t"
  "get_dict (h @ [x, DictObj d]) (Suc (length h)) = Inr d"
  by (simp_all add: get_array_def get_table_def get_dict_def nth_append)

lemma pe_sweep_st_refines:
  assumes m: "get_mdp h mdp = Inr m" and p: "get_dict h pol = Inr p"
    and vs: "get_array h sv = Inr vs"
  shows "pe_states_st pol mdp gamma sv (length h) [0..<length m]
           (h @ [ArrayObj (replicate (length m) 0)]) =
         (case pe_sweep p m gamma vs of Inl e \<Rightarrow> Inl e
          | Inr cur \<Rightarrow> Inr (h @ [ArrayObj cur]))"
proof -
  let ?h1 = "h @ [ArrayObj (replicate (length m) 0)]"
  note v = get_mdp_valid [OF m] get_dict_valid [OF p] get_array_valid [OF vs]
  have refs: "length h \<noteq> mdp" "length h \<noteq> pol" "length h \<noteq> sv" using v by auto
  have "pe_states_st pol mdp gamma sv (length h) [0..<length m] ?h1 =
       (case mapM_err (\<lambda>state.
          case getitem m state of Inl e \<Rightarrow> Inl e
          | Inr row \<Rightarrow> (case getitem p state of Inl e \<Rightarrow> Inl e
          | Inr a \<Rightarrow> (case getitem row a of Inl e \<Rightarrow> Inl e
          | Inr outcomes \<Rightarrow> accumulate gamma vs 0 outcomes))) [0..<length m] of
          Inl e \<Rightarrow> Inl e
        | Inr ys \<Rightarrow> Inr (?h1[length h := ArrayObj
            (store_all (replicate (length m) 0) [0..<length m] ys)]))"
  proof (rule pe_states_st_refines [OF refs])
    show "get_mdp ?h1 mdp = Inr m" using m v by (simp add: get_append)
    show "get_dict ?h1 pol = Inr p" using p v by (simp add: get_append)
    show "get_array ?h1 sv = Inr vs" using vs v by (simp add: get_append)
    show "get_array ?h1 (length h) = Inr (replicate (length m) 0)" by (rule get_fresh)
    show "distinct [0..<length m]" by simp
    show "\<forall>s\<in>set [0..<length m]. s < length (replicate (length m) (0::real))
        \<and> replicate (length m) (0::real) ! s = 0" by simp
  qed
  moreover have "?h1[length h := ArrayObj (store_all (replicate (length m) 0) [0..<length m] ys)]
      = h @ [ArrayObj ys]"
    if "mapM_err f [0..<length m] = Inr ys" for f :: "nat \<Rightarrow> error + real" and ys
  proof -
    from that have "length ys = length m" by (auto dest: mapM_err_length)
    then show ?thesis by (simp add: store_all_zeros)
  qed
  ultimately show ?thesis
    unfolding pe_sweep_def by (auto split: sum.splits)
qed

lemma pe_loop_st_sound:
  assumes run: "pe_loop_st pol mdp gamma theta (length m) sv h = Some y"
    and m: "get_mdp h mdp = Inr m" and p: "get_dict h pol = Inr p"
    and vs: "get_array h sv = Inr vs"
  shows "pe_loop p m gamma theta vs = Some (returned_array y)"
proof -
  let ?P = "\<lambda>(pol' :: ref) (mdp' :: ref) (gamma' :: real) (theta' :: real) (S :: nat)
      (sv :: ref) (h :: heap) (y :: error + ref \<times> heap).
      pol' = pol \<and> mdp' = mdp \<and> gamma' = gamma \<and> theta' = theta \<and> S = length m \<longrightarrow>
      (\<forall>vs. get_mdp h mdp = Inr m \<longrightarrow> get_dict h pol = Inr p \<longrightarrow> get_array h sv = Inr vs \<longrightarrow>
         pe_loop p m gamma theta vs = Some (returned_array y))"
  have "?P pol mdp gamma theta (length m) sv h y"
  proof (rule pe_loop_st.raw_induct [where P = ?P, OF _ run])
    fix f pol' mdp' gamma' theta' S sv h y
    assume IH: "\<And>pol' mdp' gamma' theta' S sv h y.
        f pol' mdp' gamma' theta' S sv h = Some y \<Longrightarrow> ?P pol' mdp' gamma' theta' S sv h y"
      and body: "(case alloc h (ArrayObj (replicate S 0)) of
        (current_values, h1) \<Rightarrow>
          (case pe_states_st pol' mdp' gamma' sv current_values [0..<S] h1 of
             Inl e \<Rightarrow> Some (Inl e)
           | Inr h2 \<Rightarrow> (case get_array h2 sv of Inl e \<Rightarrow> Some (Inl e)
           | Inr vs \<Rightarrow> (case get_array h2 current_values of Inl e \<Rightarrow> Some (Inl e)
           | Inr cs \<Rightarrow> (case max_abs_diff vs cs of Inl e \<Rightarrow> Some (Inl e)
           | Inr d \<Rightarrow>
               if d < theta' then Some (Inr (current_values, h2))
               else (case alloc h2 (ArrayObj cs) of
                       (copy, h3) \<Rightarrow> f pol' mdp' gamma' theta' S copy h3)))))) = Some y"
    show "?P pol' mdp' gamma' theta' S sv h y"
    proof (intro impI allI)
      fix vs
      assume eq: "pol' = pol \<and> mdp' = mdp \<and> gamma' = gamma \<and> theta' = theta \<and> S = length m"
        and m: "get_mdp h mdp = Inr m" and p: "get_dict h pol = Inr p"
        and vs: "get_array h sv = Inr vs"
      note v = get_mdp_valid [OF m] get_dict_valid [OF p] get_array_valid [OF vs]
      note sw = pe_sweep_st_refines [OF m p vs, of gamma]
      show "pe_loop p m gamma theta vs = Some (returned_array y)"
      proof (cases "pe_sweep p m gamma vs")
        case (Inl e)
        with body eq sw show ?thesis
          by (subst pe_loop.simps) (auto simp: alloc_def)
      next
        case (Inr cur)
        let ?h2 = "h @ [ArrayObj cur]"
        have g: "get_array ?h2 sv = Inr vs" "get_array ?h2 (length h) = Inr cur"
          using vs v by (simp_all add: get_append get_fresh)
        show ?thesis
        proof (cases "max_abs_diff vs cur")
          case (Inl e)
          with body eq sw Inr g show ?thesis
            by (subst pe_loop.simps) (auto simp: alloc_def)
        next
          case d: (Inr d)
          show ?thesis
          proof (cases "d < theta")
            case True
            with body eq sw Inr g d show ?thesis
              by (subst pe_loop.simps) (auto simp: alloc_def)
          next
            case False
            let ?h3 = "?h2 @ [ArrayObj cur]"
            from body eq sw Inr g d False
            have "f pol mdp gamma theta (length m) (length ?h2) ?h3 = Some y"
              by (simp add: alloc_def)
            from IH [OF this]
            have "pe_loop p m gamma theta cur = Some (returned_array y)"
              using m p v by (simp add: get_append get_fresh2)
            with Inr d False show ?thesis by (subst pe_loop.simps) simp
          qed
        qed
      qed
    qed
  qed
  with m p vs show ?thesis by blast
qed

lemma pe_loop_st_complete:
  assumes run: "pe_loop p m gamma theta vs = Some z"
  shows "get_mdp h mdp = Inr m \<longrightarrow> get_dict h pol = Inr p \<longrightarrow> get_array h sv = Inr vs \<longrightarrow>
     (\<exists>y. pe_loop_st pol mdp gamma theta (length m) sv h = Some y \<and> returned_array y = z)"
  using run
proof (induction arbitrary: h sv rule: pe_loop_induct)
  case (sweep_error vs e)
  show ?case
  proof (intro impI)
    assume m: "get_mdp h mdp = Inr m" and p: "get_dict h pol = Inr p"
      and vs: "get_array h sv = Inr vs"
    from pe_sweep_st_refines [OF m p vs, of gamma] sweep_error
    have "pe_loop_st pol mdp gamma theta (length m) sv h = Some (Inl e)"
      by (subst pe_loop_st.simps) (simp add: alloc_def)
    then show "\<exists>y. pe_loop_st pol mdp gamma theta (length m) sv h = Some y
        \<and> returned_array y = Inl e" by simp
  qed
next
  case (diff_error vs cur e)
  show ?case
  proof (intro impI)
    assume m: "get_mdp h mdp = Inr m" and p: "get_dict h pol = Inr p"
      and vs: "get_array h sv = Inr vs"
    note v = get_array_valid [OF vs]
    from pe_sweep_st_refines [OF m p vs, of gamma] diff_error vs v
    have "pe_loop_st pol mdp gamma theta (length m) sv h = Some (Inl e)"
      by (subst pe_loop_st.simps) (simp add: alloc_def get_append get_fresh)
    then show "\<exists>y. pe_loop_st pol mdp gamma theta (length m) sv h = Some y
        \<and> returned_array y = Inl e" by simp
  qed
next
  case (converged vs cur d)
  show ?case
  proof (intro impI)
    assume m: "get_mdp h mdp = Inr m" and p: "get_dict h pol = Inr p"
      and vs: "get_array h sv = Inr vs"
    note v = get_array_valid [OF vs]
    from pe_sweep_st_refines [OF m p vs, of gamma] converged vs v
    have "pe_loop_st pol mdp gamma theta (length m) sv h
        = Some (Inr (length h, h @ [ArrayObj cur]))"
      by (subst pe_loop_st.simps) (simp add: alloc_def get_append get_fresh)
    then show "\<exists>y. pe_loop_st pol mdp gamma theta (length m) sv h = Some y
        \<and> returned_array y = Inr cur" by (simp add: get_fresh)
  qed
next
  case (again vs cur d z)
  show ?case
  proof (intro impI)
    assume m: "get_mdp h mdp = Inr m" and p: "get_dict h pol = Inr p"
      and vs: "get_array h sv = Inr vs"
    note v = get_mdp_valid [OF m] get_dict_valid [OF p] get_array_valid [OF vs]
    let ?h2 = "h @ [ArrayObj cur]"
    let ?h3 = "?h2 @ [ArrayObj cur]"
    have "get_mdp ?h3 mdp = Inr m" "get_dict ?h3 pol = Inr p"
      "get_array ?h3 (length ?h2) = Inr cur"
      using m p v by (simp_all add: get_append get_fresh2)
    with again.IH [of ?h3 "length ?h2"]
    obtain y where y: "pe_loop_st pol mdp gamma theta (length m) (length ?h2) ?h3 = Some y"
      "returned_array y = z" by blast
    from pe_sweep_st_refines [OF m p vs, of gamma] again(1-3) vs v y(1)
    have "pe_loop_st pol mdp gamma theta (length m) sv h = Some y"
      by (subst pe_loop_st.simps) (simp add: alloc_def get_append get_fresh)
    with y(2) show "\<exists>y. pe_loop_st pol mdp gamma theta (length m) sv h = Some y
        \<and> returned_array y = z" by blast
  qed
qed

lemma policy_evaluation_st_refines:
  assumes m: "get_mdp h mdp = Inr m" and p: "get_dict h pol = Inr p"
  shows "map_option returned_array (policy_evaluation_st pol mdp gamma theta h)
         = policy_evaluation p m gamma theta"
proof -
  let ?h0 = "h @ [ArrayObj (replicate (length m) 0)]"
  note v = get_mdp_valid [OF m] get_dict_valid [OF p]
  have g: "get_mdp ?h0 mdp = Inr m" "get_dict ?h0 pol = Inr p"
    "get_array ?h0 (length h) = Inr (replicate (length m) 0)"
    using m p v by (simp_all add: get_append get_fresh)
  have st: "policy_evaluation_st pol mdp gamma theta h
      = pe_loop_st pol mdp gamma theta (length m) (length h) ?h0"
    by (simp add: policy_evaluation_st_def m alloc_def)
  show ?thesis
  proof (cases "pe_loop_st pol mdp gamma theta (length m) (length h) ?h0")
    case None
    have "policy_evaluation p m gamma theta = None"
    proof (cases "policy_evaluation p m gamma theta")
      case (Some z)
      then have "pe_loop p m gamma theta (replicate (length m) 0) = Some z"
        by (simp add: policy_evaluation_def)
      from pe_loop_st_complete [OF this, of ?h0 mdp pol "length h"] g None
      show ?thesis by simp
    qed simp
    with None st show ?thesis by simp
  next
    case (Some y)
    from pe_loop_st_sound [OF Some g] st Some show ?thesis
      by (simp add: policy_evaluation_def)
  qed
qed

lemma get_table_update:
  assumes "r < length h"
  shows "get_table (h[r := TableObj t]) r = Inr t"
    and "r' \<noteq> r \<Longrightarrow> get_table (h[r := x]) r' = get_table h r'"
  using assms by (simp_all add: get_table_def)

lemma accumulate_q_st_refines:
  assumes "vf \<noteq> q"
  shows "get_array h vf = Inr vs \<Longrightarrow> get_table h q = Inr t \<Longrightarrow> state < length t \<Longrightarrow>
     action < length (t ! state) \<Longrightarrow>
     accumulate_q_st gamma vf q state action outcomes h =
       (case accumulate gamma vs (t ! state ! action) outcomes of Inl e \<Rightarrow> Inl e
        | Inr x \<Rightarrow> Inr (h[q := TableObj (t[state := (t ! state)[action := x]])]))"
proof (induction outcomes arbitrary: h t)
  case Nil
  from get_table_valid [OF Nil(2)] have "h[q := TableObj t] = h" by (metis list_update_id)
  then show ?case by simp
next
  case (Cons o1 outcomes)
  obtain p s' r d where o1: "o1 = (p, s', r, d)" by (cases o1) auto
  note qv = get_table_valid [OF Cons.prems(2)]
  show ?case
  proof (cases "np_index vs s'")
    case (Inl e)
    then show ?thesis using Cons.prems by (simp add: o1)
  next
    case (Inr v)
    let ?x = "t ! state ! action + p * (r + gamma * v * (if d then 0 else 1))"
    let ?t = "t[state := (t ! state)[action := ?x]]"
    let ?h = "h[q := TableObj ?t]"
    have "accumulate_q_st gamma vf q state action outcomes ?h =
       (case accumulate gamma vs (?t ! state ! action) outcomes of Inl e \<Rightarrow> Inl e
        | Inr x \<Rightarrow> Inr (?h[q := TableObj (?t[state := (?t ! state)[action := x]])]))"
    proof (rule Cons.IH)
      show "get_array ?h vf = Inr vs"
        using Cons.prems(1) assms qv by (simp add: get_array_update)
      show "get_table ?h q = Inr ?t" using qv by (simp add: get_table_update)
      show "state < length ?t" using Cons.prems(3) by simp
      show "action < length (?t ! state)" using Cons.prems(3,4) by simp
    qed
    then show ?thesis
      using Cons.prems Inr by (simp add: o1 cong: sum.case_cong)
  qed
qed

lemma q_actions_st_refines:
  assumes refs: "q \<noteq> mdp" "q \<noteq> vf"
  shows "get_mdp h mdp = Inr m \<Longrightarrow> get_array h vf = Inr vs \<Longrightarrow> get_table h q = Inr t \<Longrightarrow>
     state < length t \<Longrightarrow> distinct actions \<Longrightarrow>
     (\<forall>a\<in>set actions. a < length (t ! state) \<and> t ! state ! a = 0) \<Longrightarrow>
     q_actions_st mdp gamma vf q state actions h =
       (case mapM_err (\<lambda>action.
           case getitem m state of Inl e \<Rightarrow> Inl e
           | Inr row \<Rightarrow> (case getitem row action of Inl e \<Rightarrow> Inl e
           | Inr outcomes \<Rightarrow> accumulate gamma vs 0 outcomes)) actions of
          Inl e \<Rightarrow> Inl e
        | Inr ys \<Rightarrow> Inr (h[q := TableObj (t[state := store_all (t ! state) actions ys])]))"
proof (induction actions arbitrary: h t)
  case Nil
  from get_table_valid [OF Nil(3)] have "h[q := TableObj t] = h" by (metis list_update_id)
  then show ?case by simp
next
  case (Cons action actions)
  note qv = get_table_valid [OF Cons.prems(3)]
  let ?F = "\<lambda>action.
           case getitem m state of Inl e \<Rightarrow> Inl e
           | Inr row \<Rightarrow> (case getitem row action of Inl e \<Rightarrow> Inl e
           | Inr outcomes \<Rightarrow> accumulate gamma vs 0 outcomes)"
  have ac: "action < length (t ! state)" "t ! state ! action = 0"
    using Cons.prems(6) by simp_all
  note acc = accumulate_q_st_refines [OF refs(2) [symmetric] Cons.prems(2,3,4) ac(1), of gamma]
  show ?case
  proof (cases "?F action")
    case (Inl e)
    then show ?thesis using Cons.prems(1) acc ac(2) by (auto split: sum.splits)
  next
    case (Inr y)
    then obtain row outcomes where l: "getitem m state = Inr row"
      "getitem row action = Inr outcomes" and a: "accumulate gamma vs 0 outcomes = Inr y"
      by (auto split: sum.splits)
    let ?t = "t[state := (t ! state)[action := y]]"
    let ?h = "h[q := TableObj ?t]"
    have a1: "accumulate_q_st gamma vf q state action outcomes h = Inr ?h"
      using acc [of outcomes] a ac(2) by simp
    have "q_actions_st mdp gamma vf q state actions ?h =
       (case mapM_err ?F actions of Inl e \<Rightarrow> Inl e
        | Inr ys \<Rightarrow> Inr (?h[q := TableObj (?t[state := store_all (?t ! state) actions ys])]))"
    proof (rule Cons.IH)
      show "get_mdp ?h mdp = Inr m" using Cons.prems(1) refs qv by (simp add: get_array_update)
      show "get_array ?h vf = Inr vs" using Cons.prems(2) refs qv by (simp add: get_array_update)
      show "get_table ?h q = Inr ?t" using qv by (simp add: get_table_update)
      show "state < length ?t" using Cons.prems(4) by simp
      show "distinct actions" using Cons.prems(5) by simp
      show "\<forall>a\<in>set actions. a < length (?t ! state) \<and> ?t ! state ! a = 0"
        using Cons.prems(4,5,6) by (auto simp: nth_list_update)
    qed
    then show ?thesis
      using Cons.prems(1,4) l a1 Inr
      by (cases "mapM_err ?F actions") (simp_all cong: sum.case_cong)
  qed
qed

lemma q_states_st_refines:
  assumes refs: "q \<noteq> mdp" "q \<noteq> vf"
  shows "get_mdp h mdp = Inr m \<Longrightarrow> get_array h vf = Inr vs \<Longrightarrow> get_table h q = Inr t \<Longrightarrow>
     distinct states \<Longrightarrow> (\<forall>s\<in>set states. s < length t \<and> t ! s = replicate A 0) \<Longrightarrow>
     q_states_st mdp gamma vf q A states h =
       (case mapM_err (\<lambda>state.
          mapM_err (\<lambda>action.
             case getitem m state of Inl e \<Rightarrow> Inl e
             | Inr row \<Rightarrow> (case getitem row action of Inl e \<Rightarrow> Inl e
             | Inr outcomes \<Rightarrow> accumulate gamma vs 0 outcomes)) [0..<A]) states of
          Inl e \<Rightarrow> Inl e
        | Inr rows \<Rightarrow> Inr (h[q := TableObj (store_all t states rows)]))"
proof (induction states arbitrary: h t)
  case Nil
  from get_table_valid [OF Nil(3)] have "h[q := TableObj t] = h" by (metis list_update_id)
  then show ?case by simp
next
  case (Cons state states)
  note qv = get_table_valid [OF Cons.prems(3)]
  let ?G = "\<lambda>state. mapM_err (\<lambda>action.
             case getitem m state of Inl e \<Rightarrow> Inl e
             | Inr row \<Rightarrow> (case getitem row action of Inl e \<Rightarrow> Inl e
             | Inr outcomes \<Rightarrow> accumulate gamma vs 0 outcomes)) [0..<A]"
  have st: "state < length t" "t ! state = replicate A 0" using Cons.prems(5) by simp_all
  have row: "q_actions_st mdp gamma vf q state [0..<A] h =
       (case ?G state of Inl e \<Rightarrow> Inl e
        | Inr ys \<Rightarrow> Inr (h[q := TableObj (t[state := store_all (t ! state) [0..<A] ys])]))"
    by (rule q_actions_st_refines [OF refs Cons.prems(1,2,3) st(1)]) (simp_all add: st(2))
  show ?case
  proof (cases "?G state")
    case (Inl e)
    then show ?thesis using row by simp
  next
    case (Inr ys)
    then have "length ys = A" by (auto dest: mapM_err_length)
    then have sa: "store_all (t ! state) [0..<A] ys = ys" by (simp add: st(2) store_all_zeros)
    let ?t = "t[state := ys]"
    let ?h = "h[q := TableObj ?t]"
    have r1: "q_actions_st mdp gamma vf q state [0..<A] h = Inr ?h"
      using row Inr sa by simp
    have "q_states_st mdp gamma vf q A states ?h =
       (case mapM_err ?G states of Inl e \<Rightarrow> Inl e
        | Inr rows \<Rightarrow> Inr (?h[q := TableObj (store_all ?t states rows)]))"
    proof (rule Cons.IH)
      show "get_mdp ?h mdp = Inr m" using Cons.prems(1) refs qv by (simp add: get_array_update)
      show "get_array ?h vf = Inr vs" using Cons.prems(2) refs qv by (simp add: get_array_update)
      show "get_table ?h q = Inr ?t" using qv by (simp add: get_table_update)
      show "distinct states" using Cons.prems(4) by simp
      show "\<forall>s\<in>set states. s < length ?t \<and> ?t ! s = replicate A 0"
        using Cons.prems(4,5) by (auto simp: nth_list_update)
    qed
    then show ?thesis
      using r1 Inr by (cases "mapM_err ?G states") (simp_all cong: sum.case_cong)
  qed
qed

lemma q_sweep_st_refines:
  assumes m: "get_mdp h mdp = Inr m" and vs: "get_array h vf = Inr vs"
  shows "q_states_st mdp gamma vf (length h) A [0..<S]
           (h @ [TableObj (replicate S (replicate A 0))]) =
         (case q_sweep vs m gamma S A of Inl e \<Rightarrow> Inl e
          | Inr Q \<Rightarrow> Inr (h @ [TableObj Q]))"
proof -
  let ?h1 = "h @ [TableObj (replicate S (replicate A 0))]"
  note v = get_mdp_valid [OF m] get_array_valid [OF vs]
  have refs: "length h \<noteq> mdp" "length h \<noteq> vf" using v by auto
  have "q_states_st mdp gamma vf (length h) A [0..<S] ?h1 =
       (case mapM_err (\<lambda>state.
          mapM_err (\<lambda>action.
             case getitem m state of Inl e \<Rightarrow> Inl e
             | Inr row \<Rightarrow> (case getitem row action of Inl e \<Rightarrow> Inl e
             | Inr outcomes \<Rightarrow> accumulate gamma vs 0 outcomes)) [0..<A]) [0..<S] of
          Inl e \<Rightarrow> Inl e
        | Inr rows \<Rightarrow> Inr (?h1[length h := TableObj
            (store_all (replicate S (replicate A 0)) [0..<S] rows)]))"
  proof (rule q_states_st_refines [OF refs])
    show "get_mdp ?h1 mdp = Inr m" using m v by (simp add: get_append)
    show "get_array ?h1 vf = Inr vs" using vs v by (simp add: get_append)
    show "get_table ?h1 (length h) = Inr (replicate S (replicate A 0))" by (rule get_fresh)
    show "distinct [0..<S]" by simp
    show "\<forall>s\<in>set [0..<S]. s < length (replicate S (replicate A (0::real)))
        \<and> replicate S (replicate A (0::real)) ! s = replicate A 0" by simp
  qed
  moreover have "?h1[length h := TableObj (store_all (replicate S (replicate A 0)) [0..<S] rows)]
      = h @ [TableObj rows]"
    if "mapM_err f [0..<S] = Inr rows" for f :: "nat \<Rightarrow> error + real list" and rows
  proof -
    from that have "length rows = S" by (auto dest: mapM_err_length)
    then show ?thesis by (simp add: store_all_zeros)
  qed
  ultimately show ?thesis
    unfolding q_sweep_def by (auto split: sum.splits)
qed

lemma policy_improvement_st_refines:
  assumes m: "get_mdp h mdp = Inr m" and vs: "get_array h vf = Inr vs"
  shows "returned_dict (policy_improvement_st vf mdp gamma h) = policy_improvement vs m gamma"
proof (cases "getitem m 0")
  case (Inl e)
  then show ?thesis by (simp add: policy_improvement_st_def policy_improvement_def m)
next
  case (Inr row0)
  note sw = q_sweep_st_refines [OF m vs, of gamma "length row0" "length m"]
  show ?thesis
  proof (cases "q_sweep vs m gamma (length m) (length row0)")
    case (Inl e)
    with Inr sw show ?thesis
      by (simp add: policy_improvement_st_def policy_improvement_def m alloc_def)
  next
    case Q: (Inr Q)
    with Inr sw show ?thesis
      by (simp add: policy_improvement_st_def policy_improvement_def m alloc_def
          policy_constructor_st_def get_fresh get_fresh2 split: sum.splits)
  qed
qed

lemma policy_improvement_st_dict:
  assumes "policy_improvement_st vf mdp gamma h = Inr (r, h')"
  shows "\<exists>pol. get_dict h' r = Inr pol"
proof -
  from assms obtain h2 q pol where "policy_constructor_st q h2 = Inr (r, h')"
    by (auto simp: policy_improvement_st_def split: sum.splits prod.splits)
  then show ?thesis
    by (auto simp: policy_constructor_st_def alloc_def get_fresh split: sum.splits)
qed

lemma get_dict_preserved:
  assumes "preserved h h'" and "get_dict h r = Inr d"
  shows "get_dict h' r = Inr d"
proof -
  from assms(2) have lt: "r < length h" by (auto simp: get_dict_def split: if_splits)
  with assms(1) have "h' ! r = h ! r" "r < length h'"
    by (auto simp: preserved_nth preserved_def)
  with assms(2) lt show ?thesis by (simp add: get_dict_def)
qed

lemma get_array_preserved:
  assumes "preserved h h'" and "get_array h r = Inr xs"
  shows "get_array h' r = Inr xs"
proof -
  from assms(2) have lt: "r < length h" by (auto simp: get_array_def split: if_splits)
  with assms(1) have "h' ! r = h ! r" "r < length h'"
    by (auto simp: preserved_nth preserved_def)
  with assms(2) lt show ?thesis by (simp add: get_array_def)
qed

lemma policy_evaluation_st_array:
  assumes run: "policy_evaluation_st pol mdp gamma theta h = Some (Inr (r, h'))"
    and m: "get_mdp h mdp = Inr m" and p: "get_dict h pol = Inr p"
  shows "\<exists>V. get_array h' r = Inr V \<and> policy_evaluation p m gamma theta = Some (Inr V)"
proof -
  let ?h0 = "h @ [ArrayObj (replicate (length m) 0)]"
  note v = get_mdp_valid [OF m] get_dict_valid [OF p]
  have g: "get_mdp ?h0 mdp = Inr m" "get_dict ?h0 pol = Inr p"
    "get_array ?h0 (length h) = Inr (replicate (length m) 0)"
    using m p v by (simp_all add: get_append get_fresh)
  from run have loop: "pe_loop_st pol mdp gamma theta (length m) (length h) ?h0
      = Some (Inr (r, h'))"
    by (simp add: policy_evaluation_st_def m alloc_def)
  have pure: "policy_evaluation p m gamma theta = Some (get_array h' r)"
    using pe_loop_st_sound [OF loop g] by (simp add: policy_evaluation_def)
  let ?P = "\<lambda>(pol :: ref) (mdp :: ref) (gamma :: real) (theta :: real) (S :: nat) (sv :: ref)
      (h :: heap) (y :: error + ref \<times> heap).
      \<forall>r h'. y = Inr (r, h') \<longrightarrow> (\<exists>V. get_array h' r = Inr V)"
  have "?P pol mdp gamma theta (length m) (length h) ?h0 (Inr (r, h'))"
  proof (rule pe_loop_st.raw_induct [where P = ?P, OF _ loop])
    fix f pol mdp gamma theta S sv h y
    assume IH: "\<And>pol mdp gamma theta S sv h y.
        f pol mdp gamma theta S sv h = Some y \<Longrightarrow> ?P pol mdp gamma theta S sv h y"
      and body: "(case alloc h (ArrayObj (replicate S 0)) of
        (current_values, h1) \<Rightarrow>
          (case pe_states_st pol mdp gamma sv current_values [0..<S] h1 of
             Inl e \<Rightarrow> Some (Inl e)
           | Inr h2 \<Rightarrow> (case get_array h2 sv of Inl e \<Rightarrow> Some (Inl e)
           | Inr vs \<Rightarrow> (case get_array h2 current_values of Inl e \<Rightarrow> Some (Inl e)
           | Inr cs \<Rightarrow> (case max_abs_diff vs cs of Inl e \<Rightarrow> Some (Inl e)
           | Inr d \<Rightarrow>
               if d < theta then Some (Inr (current_values, h2))
               else (case alloc h2 (ArrayObj cs) of
                       (copy, h3) \<Rightarrow> f pol mdp gamma theta S copy h3)))))) = Some y"
    show "?P pol mdp gamma theta S sv h y"
    proof (intro allI impI)
      fix r h'
      assume y: "y = Inr (r, h')"
      obtain cv h1 where al: "alloc h (ArrayObj (replicate S 0)) = (cv, h1)"
        by (cases "alloc h (ArrayObj (replicate S 0))")
      from body obtain h2 where sw: "pe_states_st pol mdp gamma sv cv [0..<S] h1 = Inr h2"
        unfolding al y by (cases "pe_states_st pol mdp gamma sv cv [0..<S] h1") simp_all
      from body obtain vs where vs: "get_array h2 sv = Inr vs"
        unfolding al y by (cases "get_array h2 sv") (simp_all add: sw)
      from body obtain cs where cs: "get_array h2 cv = Inr cs"
        unfolding al y by (cases "get_array h2 cv") (simp_all add: sw vs)
      from body obtain d where d: "max_abs_diff vs cs = Inr d"
        unfolding al y by (cases "max_abs_diff vs cs") (simp_all add: sw vs cs)
      show "\<exists>V. get_array h' r = Inr V"
      proof (cases "d < theta")
        case True
        with body cs show ?thesis unfolding al y by (auto simp: sw vs d)
      next
        case False
        obtain copy h3 where al3: "alloc h2 (ArrayObj cs) = (copy, h3)"
          by (cases "alloc h2 (ArrayObj cs)")
        with body False have "f pol mdp gamma theta S copy h3 = Some (Inr (r, h'))"
          unfolding al y by (simp add: sw vs cs d)
        from IH [OF this] show ?thesis by blast
      qed
    qed
  qed
  then obtain V where "get_array h' r = Inr V" by blast
  with pure show ?thesis by simp
qed

lemma policy_evaluation_st_cases:
  assumes m: "get_mdp h mdp = Inr m" and p: "get_dict h pol = Inr p"
  shows "(policy_evaluation_st pol mdp gamma theta h = None
          \<longleftrightarrow> policy_evaluation p m gamma theta = None)"
    and "(policy_evaluation_st pol mdp gamma theta h = Some (Inl e)
          \<longleftrightarrow> policy_evaluation p m gamma theta = Some (Inl e))"
    and "policy_evaluation p m gamma theta = Some (Inr V) \<Longrightarrow>
         \<exists>r h'. policy_evaluation_st pol mdp gamma theta h = Some (Inr (r, h'))
           \<and> get_array h' r = Inr V"
proof -
  note eq = policy_evaluation_st_refines [OF m p, of gamma theta, symmetric]
  show "(policy_evaluation_st pol mdp gamma theta h = None
          \<longleftrightarrow> policy_evaluation p m gamma theta = None)"
    using eq by (cases "policy_evaluation_st pol mdp gamma theta h") auto
  show "(policy_evaluation_st pol mdp gamma theta h = Some (Inl e)
          \<longleftrightarrow> policy_evaluation p m gamma theta = Some (Inl e))"
  proof (cases "policy_evaluation_st pol mdp gamma theta h")
    case None
    with eq show ?thesis by auto
  next
    case (Some y)
    show ?thesis
    proof (cases y)
      case (Inl e')
      with Some eq show ?thesis by auto
    next
      case (Inr rh)
      obtain r h' where rh: "rh = (r, h')" by (cases rh)
      from policy_evaluation_st_array [OF Some [unfolded Inr rh] m p] Some Inr
      show ?thesis by auto
    qed
  qed
  assume V: "policy_evaluation p m gamma theta = Some (Inr V)"
  show "\<exists>r h'. policy_evaluation_st pol mdp gamma theta h = Some (Inr (r, h'))
           \<and> get_array h' r = Inr V"
  proof (cases "policy_evaluation_st pol mdp gamma theta h")
    case None
    with eq V show ?thesis by auto
  next
    case (Some y)
    show ?thesis
    proof (cases y)
      case (Inl e')
      with Some eq V show ?thesis by auto
    next
      case (Inr rh)
      obtain r h' where rh: "rh = (r, h')" by (cases rh)
      from policy_evaluation_st_array [OF Some [unfolded Inr rh] m p] Some Inr rh V
      show ?thesis by auto
    qed
  qed
qed

lemma pi_loop_st_sound:
  assumes run: "pi_loop_st mdp gamma theta S cur h = Some y"
    and m: "get_mdp h mdp = Inr m" and c: "get_dict h cur = Inr cp"
  shows "pi_loop m gamma theta S cp = Some (returned_pair y)"
proof -
  let ?P = "\<lambda>(mdp :: ref) (gamma :: real) (theta :: real) (S :: nat) (cur :: ref) (h :: heap)
      (y :: error + (ref \<times> ref) \<times> heap).
      \<forall>cp. get_mdp h mdp = Inr m \<longrightarrow> get_dict h cur = Inr cp \<longrightarrow>
        pi_loop m gamma theta S cp = Some (returned_pair y)"
  have "?P mdp gamma theta S cur h y"
  proof (rule pi_loop_st.raw_induct [where P = ?P, OF _ run])
    fix f mdp gamma theta S cur h y
    assume IH: "\<And>mdp gamma theta S cur h y.
        f mdp gamma theta S cur h = Some y \<Longrightarrow> ?P mdp gamma theta S cur h y"
      and body: "(case policy_evaluation_st cur mdp gamma theta h of None \<Rightarrow> None
        | Some r \<Rightarrow>
           (case r of Inl e \<Rightarrow> Some (Inl e)
            | Inr (value_function, h1) \<Rightarrow>
               (case policy_improvement_st value_function mdp gamma h1 of
                  Inl e \<Rightarrow> Some (Inl e)
                | Inr (improved_policy, h2) \<Rightarrow>
                   (case get_dict h2 improved_policy of Inl e \<Rightarrow> Some (Inl e)
                    | Inr improved \<Rightarrow> (case rebuild improved S of Inl e \<Rightarrow> Some (Inl e)
                    | Inr d \<Rightarrow> (case get_dict h2 cur of Inl e \<Rightarrow> Some (Inl e)
                    | Inr current \<Rightarrow>
                        if dict_eq current d
                        then Some (Inr ((improved_policy, value_function), h2))
                        else f mdp gamma theta S improved_policy h2)))))) = Some y"
    show "?P mdp gamma theta S cur h y"
    proof (intro allI impI)
      fix cp
      assume m: "get_mdp h mdp = Inr m" and c: "get_dict h cur = Inr cp"
      from body obtain r where ev: "policy_evaluation_st cur mdp gamma theta h = Some r"
        by (cases "policy_evaluation_st cur mdp gamma theta h") simp_all
      show "pi_loop m gamma theta S cp = Some (returned_pair y)"
      proof (cases r)
        case (Inl e)
        with ev have "policy_evaluation cp m gamma theta = Some (Inl e)"
          using policy_evaluation_st_cases(2) [OF m c] by simp
        moreover from body ev Inl have "y = Inl e" by simp
        ultimately show ?thesis by (subst pi_loop.simps) simp
      next
        case (Inr rh)
        obtain vf h1 where rh: "rh = (vf, h1)" by (cases rh)
        note ev' = ev [unfolded Inr rh]
        from policy_evaluation_st_array [OF ev' m c] obtain V
          where V: "get_array h1 vf = Inr V"
            and pe: "policy_evaluation cp m gamma theta = Some (Inr V)" by blast
        have p1: "preserved h h1"
          using ev' preserved_refl by (rule policy_evaluation_st_preserved)
        note m1 = get_mdp_preserved [OF p1 m] and c1 = get_dict_preserved [OF p1 c]
        note im = policy_improvement_st_refines [OF m1 V, of gamma]
        show ?thesis
        proof (cases "policy_improvement_st vf mdp gamma h1")
          case (Inl e)
          with im have "policy_improvement V m gamma = Inl e" by simp
          moreover from body ev' Inl have "y = Inl e" by simp
          ultimately show ?thesis using pe by (subst pi_loop.simps) simp
        next
          case imp: (Inr ih)
          obtain ir h2 where ih: "ih = (ir, h2)" by (cases ih)
          note imp' = imp [unfolded ih]
          from policy_improvement_st_dict [OF imp'] obtain ip
            where ip: "get_dict h2 ir = Inr ip" by blast
          with im imp' have pim: "policy_improvement V m gamma = Inr ip" by simp
          have p2: "preserved h1 h2"
            using imp' preserved_refl by (rule policy_improvement_st_preserved)
          note m2 = get_mdp_preserved [OF p2 m1] and c2 = get_dict_preserved [OF p2 c1]
            and V2 = get_array_preserved [OF p2 V]
          show ?thesis
          proof (cases "rebuild ip S")
            case (Inl e)
            with body ev' imp' ip have "y = Inl e" by simp
            with Inl pe pim show ?thesis by (subst pi_loop.simps) simp
          next
            case d: (Inr d)
            show ?thesis
            proof (cases "dict_eq cp d")
              case True
              with body ev' imp' ip d c2 have "y = Inr ((ir, vf), h2)" by simp
              with True d pe pim ip V2 show ?thesis by (subst pi_loop.simps) simp
            next
              case False
              with body ev' imp' ip d c2 have "f mdp gamma theta S ir h2 = Some y" by simp
              from IH [OF this] m2 ip
              have "pi_loop m gamma theta S ip = Some (returned_pair y)" by blast
              with False d pe pim show ?thesis by (subst pi_loop.simps) simp
            qed
          qed
        qed
      qed
    qed
  qed
  with m c show ?thesis by blast
qed

lemma pi_loop_st_complete:
  assumes run: "pi_loop m gamma theta S cp = Some z"
    and m: "get_mdp h mdp = Inr m" and c: "get_dict h cur = Inr cp"
  shows "\<exists>y. pi_loop_st mdp gamma theta S cur h = Some y"
proof -
  let ?Q = "\<lambda>cp (z :: error + policy \<times> real list).
      \<forall>cur h. get_mdp h mdp = Inr m \<longrightarrow> get_dict h cur = Inr cp \<longrightarrow>
        (\<exists>y. pi_loop_st mdp gamma theta S cur h = Some y)"
  from run have "?Q cp z"
  proof (induction rule: pi_loop_induct)
    case (eval_error cp e)
    show ?case
    proof (intro allI impI)
      fix cur h
      assume m: "get_mdp h mdp = Inr m" and c: "get_dict h cur = Inr cp"
      from eval_error have "policy_evaluation_st cur mdp gamma theta h = Some (Inl e)"
        using policy_evaluation_st_cases(2) [OF m c] by simp
      then show "\<exists>y. pi_loop_st mdp gamma theta S cur h = Some y"
        by (subst pi_loop_st.simps) simp
    qed
  next
    case (improve_error cp V e)
    show ?case
    proof (intro allI impI)
      fix cur h
      assume m: "get_mdp h mdp = Inr m" and c: "get_dict h cur = Inr cp"
      from policy_evaluation_st_cases(3) [OF m c improve_error(1)] obtain vf h1
        where ev: "policy_evaluation_st cur mdp gamma theta h = Some (Inr (vf, h1))"
          and V: "get_array h1 vf = Inr V" by blast
      have p1: "preserved h h1"
        using ev preserved_refl by (rule policy_evaluation_st_preserved)
      note m1 = get_mdp_preserved [OF p1 m]
      note im = policy_improvement_st_refines [OF m1 V, of gamma]
      have "policy_improvement_st vf mdp gamma h1 = Inl e"
      proof (cases "policy_improvement_st vf mdp gamma h1")
        case (Inl e')
        with im improve_error(2) show ?thesis by simp
      next
        case (Inr ih)
        obtain ir h2 where ih: "ih = (ir, h2)" by (cases ih)
        from policy_improvement_st_dict [OF Inr [unfolded ih]] im Inr ih improve_error(2)
        show ?thesis by auto
      qed
      with ev show "\<exists>y. pi_loop_st mdp gamma theta S cur h = Some y"
        by (subst pi_loop_st.simps) simp
    qed
  next
    case (rebuild_error cp V imp e)
    show ?case
    proof (intro allI impI)
      fix cur h
      assume m: "get_mdp h mdp = Inr m" and c: "get_dict h cur = Inr cp"
      from policy_evaluation_st_cases(3) [OF m c rebuild_error(1)] obtain vf h1
        where ev: "policy_evaluation_st cur mdp gamma theta h = Some (Inr (vf, h1))"
          and V: "get_array h1 vf = Inr V" by blast
      have p1: "preserved h h1"
        using ev preserved_refl by (rule policy_evaluation_st_preserved)
      note m1 = get_mdp_preserved [OF p1 m]
      note im = policy_improvement_st_refines [OF m1 V, of gamma]
      from im rebuild_error(2) obtain ir h2
        where imp: "policy_improvement_st vf mdp gamma h1 = Inr (ir, h2)"
          and ip: "get_dict h2 ir = Inr imp"
        by (cases "policy_improvement_st vf mdp gamma h1") auto
      with ev rebuild_error(3) show "\<exists>y. pi_loop_st mdp gamma theta S cur h = Some y"
        by (subst pi_loop_st.simps) simp
    qed
  next
    case (stable cp V imp d)
    show ?case
    proof (intro allI impI)
      fix cur h
      assume m: "get_mdp h mdp = Inr m" and c: "get_dict h cur = Inr cp"
      from policy_evaluation_st_cases(3) [OF m c stable(1)] obtain vf h1
        where ev: "policy_evaluation_st cur mdp gamma theta h = Some (Inr (vf, h1))"
          and V: "get_array h1 vf = Inr V" by blast
      have p1: "preserved h h1"
        using ev preserved_refl by (rule policy_evaluation_st_preserved)
      note m1 = get_mdp_preserved [OF p1 m] and c1 = get_dict_preserved [OF p1 c]
      note im = policy_improvement_st_refines [OF m1 V, of gamma]
      from im stable(2) obtain ir h2
        where imp: "policy_improvement_st vf mdp gamma h1 = Inr (ir, h2)"
          and ip: "get_dict h2 ir = Inr imp"
        by (cases "policy_improvement_st vf mdp gamma h1") auto
      have p2: "preserved h1 h2"
        using imp preserved_refl by (rule policy_improvement_st_preserved)
      note c2 = get_dict_preserved [OF p2 c1]
      from ev imp ip c2 stable(3,4)
      show "\<exists>y. pi_loop_st mdp gamma theta S cur h = Some y"
        by (subst pi_loop_st.simps) simp
    qed
  next
    case (again cp V imp d z)
    show ?case
    proof (intro allI impI)
      fix cur h
      assume m: "get_mdp h mdp = Inr m" and c: "get_dict h cur = Inr cp"
      from policy_evaluation_st_cases(3) [OF m c again(1)] obtain vf h1
        where ev: "policy_evaluation_st cur mdp gamma theta h = Some (Inr (vf, h1))"
          and V: "get_array h1 vf = Inr V" by blast
      have p1: "preserved h h1"
        using ev preserved_refl by (rule policy_evaluation_st_preserved)
      note m1 = get_mdp_preserved [OF p1 m] and c1 = get_dict_preserved [OF p1 c]
      note im = policy_improvement_st_refines [OF m1 V, of gamma]
      from im again(2) obtain ir h2
        where imp: "policy_improvement_st vf mdp gamma h1 = Inr (ir, h2)"
          and ip: "get_dict h2 ir = Inr imp"
        by (cases "policy_improvement_st vf mdp gamma h1") auto
      have p2: "preserved h1 h2"
        using imp preserved_refl by (rule policy_improvement_st_preserved)
      note m2 = get_mdp_preserved [OF p2 m1] and c2 = get_dict_preserved [OF p2 c1]
      from again.IH m2 ip obtain y where "pi_loop_st mdp gamma theta S ir h2 = Some y"
        by blast
      with ev imp ip c2 again(3,4)
      show "\<exists>y. pi_loop_st mdp gamma theta S cur h = Some y"
        by (subst pi_loop_st.simps) simp
    qed
  qed
  with m c show ?thesis by blast
qed

lemma pi_loop_st_refines:
  assumes m: "get_mdp h mdp = Inr m" and c: "get_dict h cur = Inr cp"
  shows "map_option returned_pair (pi_loop_st mdp gamma theta S cur h) =
         pi_loop m gamma theta S cp"
proof (cases "pi_loop_st mdp gamma theta S cur h")
  case None
  with pi_loop_st_complete [OF _ m c, of gamma theta S] show ?thesis
    by (cases "pi_loop m gamma theta S cp") auto
next
  case (Some y)
  with pi_loop_st_sound [OF Some m c] show ?thesis by simp
qed

lemma policy_iteration_st_refines:
  assumes m: "get_mdp h mdp = Inr m"
  shows "map_option returned_pair (policy_iteration_st rnd mdp gamma theta h) =
         policy_iteration rnd m gamma theta"
proof (cases "getitem m 0")
  case (Inl e)
  then show ?thesis by (simp add: policy_iteration_st_def policy_iteration_def m)
next
  case (Inr row0)
  let ?h1 = "h @ [DictObj (enumerate 0 rnd)]"
  note v = get_mdp_valid [OF m]
  have g: "get_mdp ?h1 mdp = Inr m" "get_dict ?h1 (length h) = Inr (enumerate 0 rnd)"
    using m v by (simp_all add: get_append get_fresh)
  show ?thesis
    using pi_loop_st_refines [OF g, of gamma theta "length m"]
    by (simp add: policy_iteration_st_def policy_iteration_def m Inr alloc_def)
qed

lemma vi_loop_st_unfold:
  assumes m: "get_mdp h mdp = Inr m" and vs: "get_array h vf = Inr vs"
  shows "vi_loop_st mdp gamma theta S A vf h =
     (case q_sweep vs m gamma S A of Inl e \<Rightarrow> Some (Inl e)
      | Inr Q \<Rightarrow> (case np_max_axis1 Q of Inl e \<Rightarrow> Some (Inl e)
      | Inr mx \<Rightarrow> (case max_abs_diff vs mx of Inl e \<Rightarrow> Some (Inl e)
      | Inr d \<Rightarrow>
          if d < theta then Some (Inr ((length h, vf), h @ [TableObj Q]))
          else vi_loop_st mdp gamma theta S A (Suc (length h))
                 (h @ [TableObj Q, ArrayObj mx]))))"
proof -
  note v = get_array_valid [OF vs]
  note sw = q_sweep_st_refines [OF m vs, of gamma A S]
  show ?thesis
  proof (cases "q_sweep vs m gamma S A")
    case (Inl e)
    with sw show ?thesis by (subst vi_loop_st.simps) (simp add: alloc_def)
  next
    case (Inr Q)
    have g: "get_table (h @ [TableObj Q]) (length h) = Inr Q"
      "get_array (h @ [TableObj Q]) vf = Inr vs"
      using vs v by (simp_all add: get_append get_fresh)
    from Inr sw g show ?thesis
      by (subst vi_loop_st.simps) (simp add: alloc_def split: sum.splits)
  qed
qed

lemma vi_loop_st_sound:
  assumes run: "vi_loop_st mdp gamma theta S A vf h = Some y"
    and m: "get_mdp h mdp = Inr m" and vs: "get_array h vf = Inr vs"
  shows "vi_loop m gamma theta S A vs = Some (returned_tables y) \<and>
         (\<forall>q fv h1. y = Inr ((q, fv), h1) \<longrightarrow>
            (\<exists>Q V. get_table h1 q = Inr Q \<and> get_array h1 fv = Inr V))"
proof -
  let ?C = "\<lambda>(vs :: real list) (y :: error + (ref \<times> ref) \<times> heap).
      vi_loop m gamma theta S A vs = Some (returned_tables y) \<and>
      (\<forall>q fv h1. y = Inr ((q, fv), h1) \<longrightarrow>
         (\<exists>Q V. get_table h1 q = Inr Q \<and> get_array h1 fv = Inr V))"
  let ?P = "\<lambda>(mdp' :: ref) (gamma' :: real) (theta' :: real) (S' :: nat) (A' :: nat)
      (vf :: ref) (h :: heap) (y :: error + (ref \<times> ref) \<times> heap).
      mdp' = mdp \<and> gamma' = gamma \<and> theta' = theta \<and> S' = S \<and> A' = A \<longrightarrow>
      (\<forall>vs. get_mdp h mdp = Inr m \<longrightarrow> get_array h vf = Inr vs \<longrightarrow> ?C vs y)"
  have "?P mdp gamma theta S A vf h y"
  proof (rule vi_loop_st.raw_induct [where P = ?P, OF _ run])
    fix f mdp' gamma' theta' S' A' vf h y
    assume IH: "\<And>mdp' gamma' theta' S' A' vf h y.
        f mdp' gamma' theta' S' A' vf h = Some y \<Longrightarrow> ?P mdp' gamma' theta' S' A' vf h y"
      and body: "(case alloc h (TableObj (replicate S' (replicate A' 0))) of
        (Q_vals, h1) \<Rightarrow>
          (case q_states_st mdp' gamma' vf Q_vals A' [0..<S'] h1 of
             Inl e \<Rightarrow> Some (Inl e)
           | Inr h2 \<Rightarrow> (case get_table h2 Q_vals of Inl e \<Rightarrow> Some (Inl e)
           | Inr q \<Rightarrow> (case np_max_axis1 q of Inl e \<Rightarrow> Some (Inl e)
           | Inr m \<Rightarrow> (case get_array h2 vf of Inl e \<Rightarrow> Some (Inl e)
           | Inr vs \<Rightarrow> (case max_abs_diff vs m of Inl e \<Rightarrow> Some (Inl e)
           | Inr d \<Rightarrow>
               if d < theta' then Some (Inr ((Q_vals, vf), h2))
               else (case alloc h2 (ArrayObj m) of
                       (new_values, h3) \<Rightarrow>
                         f mdp' gamma' theta' S' A' new_values h3))))))) = Some y"
    show "?P mdp' gamma' theta' S' A' vf h y"
    proof (intro allI impI)
      fix vs
      assume eq: "mdp' = mdp \<and> gamma' = gamma \<and> theta' = theta \<and> S' = S \<and> A' = A"
        and m: "get_mdp h mdp = Inr m" and vs: "get_array h vf = Inr vs"
      note v = get_array_valid [OF vs] get_mdp_valid [OF m]
      note sw = q_sweep_st_refines [OF m vs, of gamma A S]
      show "?C vs y"
      proof (cases "q_sweep vs m gamma S A")
        case (Inl e)
        with body eq sw have "y = Inl e" by (simp add: alloc_def)
        with Inl show ?thesis by (subst vi_loop.simps) simp
      next
        case Q: (Inr Q)
        have g: "get_table (h @ [TableObj Q]) (length h) = Inr Q"
          "get_array (h @ [TableObj Q]) vf = Inr vs"
          using vs v by (simp_all add: get_append get_fresh)
        show ?thesis
        proof (cases "np_max_axis1 Q")
          case (Inl e)
          with body eq sw Q g have "y = Inl e" by (simp add: alloc_def)
          with Inl Q show ?thesis by (subst vi_loop.simps) simp
        next
          case mx: (Inr mx)
          show ?thesis
          proof (cases "max_abs_diff vs mx")
            case (Inl e)
            with body eq sw Q g mx have "y = Inl e" by (simp add: alloc_def)
            with Inl Q mx show ?thesis by (subst vi_loop.simps) simp
          next
            case d: (Inr d)
            show ?thesis
            proof (cases "d < theta")
              case True
              with body eq sw Q g mx d
              have "y = Inr ((length h, vf), h @ [TableObj Q])" by (simp add: alloc_def)
              with True Q mx d g show ?thesis by (subst vi_loop.simps) simp
            next
              case False
              let ?h3 = "h @ [TableObj Q, ArrayObj mx]"
              from False body eq sw Q g mx d
              have step: "f mdp' gamma' theta' S' A' (Suc (length h)) ?h3 = Some y"
                by (simp add: alloc_def)
              have g3: "get_mdp ?h3 mdp = Inr m" "get_array ?h3 (Suc (length h)) = Inr mx"
                using m v by (simp_all add: get_append get_fresh2)
              from IH [OF step] eq g3 have "?C mx y" by blast
              with False Q mx d show ?thesis by (subst vi_loop.simps) simp
            qed
          qed
        qed
      qed
    qed
  qed
  with m vs show ?thesis by blast
qed

lemma vi_loop_st_complete:
  assumes run: "vi_loop m gamma theta S A vs = Some z"
    and m: "get_mdp h mdp = Inr m" and vs: "get_array h vf = Inr vs"
  shows "\<exists>y. vi_loop_st mdp gamma theta S A vf h = Some y"
proof -
  let ?Q = "\<lambda>vs (z :: error + real list list \<times> real list).
      \<forall>vf h. get_mdp h mdp = Inr m \<longrightarrow> get_array h vf = Inr vs \<longrightarrow>
        (\<exists>y. vi_loop_st mdp gamma theta S A vf h = Some y)"
  from run have "?Q vs z"
  proof (induction rule: vi_loop_induct)
    case (again vs Q mx d z)
    show ?case
    proof (intro allI impI)
      fix vf h
      assume m: "get_mdp h mdp = Inr m" and vs: "get_array h vf = Inr vs"
      note v = get_mdp_valid [OF m]
      let ?h3 = "h @ [TableObj Q, ArrayObj mx]"
      have g3: "get_mdp ?h3 mdp = Inr m" "get_array ?h3 (Suc (length h)) = Inr mx"
        using m v by (simp_all add: get_append get_fresh2)
      with again.IH obtain y
        where "vi_loop_st mdp gamma theta S A (Suc (length h)) ?h3 = Some y" by blast
      with again(1-4) show "\<exists>y. vi_loop_st mdp gamma theta S A vf h = Some y"
        by (simp add: vi_loop_st_unfold [OF m vs])
    qed
  qed (simp_all add: vi_loop_st_unfold)
  with m vs show ?thesis by blast
qed

lemma value_iteration_st_refines:
  assumes m: "get_mdp h mdp = Inr m"
  shows "map_option returned_pair (value_iteration_st mdp gamma theta h) =
         value_iteration m gamma theta"
proof (cases "getitem m 0")
  case (Inl e)
  then show ?thesis by (simp add: value_iteration_st_def value_iteration_def m)
next
  case (Inr row0)
  let ?h0 = "h @ [ArrayObj (replicate (length m) 0)]"
  let ?st = "vi_loop_st mdp gamma theta (length m) (length row0) (length h) ?h0"
  let ?pure = "vi_loop m gamma theta (length m) (length row0) (replicate (length m) 0)"
  note v = get_mdp_valid [OF m]
  have g: "get_mdp ?h0 mdp = Inr m" "get_array ?h0 (length h) = Inr (replicate (length m) 0)"
    using m v by (simp_all add: get_append get_fresh)
  have unfold_st: "value_iteration_st mdp gamma theta h =
      (case ?st of None \<Rightarrow> None
       | Some r \<Rightarrow> (case r of Inl e \<Rightarrow> Some (Inl e)
         | Inr ((Q_vals, final_values), h1) \<Rightarrow>
             (case policy_constructor_st Q_vals h1 of Inl e \<Rightarrow> Some (Inl e)
              | Inr (policy, h2) \<Rightarrow> Some (Inr ((policy, final_values), h2)))))"
    by (simp add: value_iteration_st_def m Inr alloc_def)
  show ?thesis
  proof (cases ?st)
    case None
    have "?pure = None"
    proof (cases ?pure)
      case (Some z)
      from vi_loop_st_complete [OF Some g] None show ?thesis by simp
    qed simp
    with None show ?thesis by (simp add: unfold_st value_iteration_def Inr)
  next
    case (Some y)
    note snd = vi_loop_st_sound [OF Some g]
    show ?thesis
    proof (cases y)
      case (Inl e)
      with Some snd show ?thesis by (simp add: unfold_st value_iteration_def Inr)
    next
      case y: (Inr qh)
      obtain q fv h1 where qh: "qh = ((q, fv), h1)" by (cases qh) auto
      from snd y qh obtain Q V where Q: "get_table h1 q = Inr Q"
        and V: "get_array h1 fv = Inr V" by blast
      with snd y qh have pure: "?pure = Some (Inr (Q, V))" by simp
      note vv = get_array_valid [OF V]
      show ?thesis
      proof (cases "policy_constructor Q")
        case (Inl e)
        with Some y qh Q pure show ?thesis
          by (simp add: unfold_st value_iteration_def Inr policy_constructor_st_def)
      next
        case pc: (Inr pol)
        with Some y qh Q V vv pure show ?thesis
          by (simp add: unfold_st value_iteration_def Inr policy_constructor_st_def
              alloc_def get_fresh get_append)
      qed
    qed
  qed
qed

end
